theory Spec2Isabelle
  imports Complex_Main "HOL-Library.Word" "HOL-Library.Multiset"
    "HOL-Library.Product_Lexorder" "HOL-Library.Signed_Division"
begin

unbundle bit_operations_syntax

section \<open>GloVe preprocessing tools: vocab\_count, cooccur, shuffle\<close>

text \<open>
  A shallow embedding of the three C programs.  C's \<^verbatim>\<open>long long\<close> counters are
  \<^typ>\<open>int\<close> (none of the properties below depends on a 64-bit wrap-around), array
  indices are converted with \<^const>\<open>nat\<close>, and C's truncating integer division is
  \<^const>\<open>signed_divide\<close> (\<open>sdiv\<close>).  The differences of two \<^verbatim>\<open>int\<close> that the
  comparison functions return wrap around at 32 bits, and the type \<^verbatim>\<open>real\<close> of the
  sources, which is \<^verbatim>\<open>double\<close>, is modelled with its rounding.
\<close>

subsection \<open>Strings, plain char and the hash function (both programs)\<close>

text \<open>
  A C string is the list of its bytes before the terminating NUL.  Whether plain
  \<^verbatim>\<open>char\<close> is signed is implementation-defined (signed on x86, unsigned on ARM Linux); the
  flag \<open>sc\<close> of the functions below says which, and \<open>c_char sc c\<close> is the value a
  \<^verbatim>\<open>char\<close> holding the byte \<open>c\<close> has in an arithmetic expression.
\<close>

definition c_char :: "bool \<Rightarrow> char \<Rightarrow> int" where
  "c_char sc c =
     (if sc \<and> 128 \<le> (of_char c :: nat) then int (of_char c) - 256 else int (of_char c))"

definition c_string :: "string \<Rightarrow> string" where
  "c_string buf = takeWhile (\<lambda>c. c \<noteq> CHR 0x00) buf"

text \<open>
  \<^verbatim>\<open>int scmp(char *s1, char *s2) {
      while (*s1 != '\0' && *s1 == *s2) {s1++; s2++;}
      return(*s1 - *s2); }\<close>
\<close>

fun scmp :: "bool \<Rightarrow> string \<Rightarrow> string \<Rightarrow> int" where
  "scmp sc [] [] = 0"
| "scmp sc [] (c2 # s2) = 0 - c_char sc c2"
| "scmp sc (c1 # s1) [] = c_char sc c1 - 0"
| "scmp sc (c1 # s1) (c2 # s2) =
     (if c1 = c2 then scmp sc s1 s2 else c_char sc c1 - c_char sc c2)"

text \<open>
  \<^verbatim>\<open>h = seed; for (; (c =* word) != '\0'; word++) h ^= ((h << 5) + c + (h >> 2));
  return((unsigned int)((h&0x7fffffff) % tsize));\<close>
  All of it is arithmetic of \<^verbatim>\<open>unsigned int\<close>, here of 32 bits.
\<close>

fun bitwisehash_loop :: "bool \<Rightarrow> string \<Rightarrow> 32 word \<Rightarrow> 32 word" where
  "bitwisehash_loop sc [] h = h"
| "bitwisehash_loop sc (c # word) h =
     bitwisehash_loop sc word (h XOR (push_bit 5 h + of_int (c_char sc c) + drop_bit 2 h))"

definition bitwisehash :: "bool \<Rightarrow> string \<Rightarrow> 32 word \<Rightarrow> 32 word \<Rightarrow> 32 word" where
  "bitwisehash sc word tsize seed = (bitwisehash_loop sc word seed AND 0x7fffffff) mod tsize"

definition TSIZE :: "32 word" where
  "TSIZE = 1048576"

definition SEED :: "32 word" where
  "SEED = 1159241"

text \<open>
  A chain of \<^verbatim>\<open>HASHREC\<close> nodes is the list of its nodes, a node the pair of its word and
  its number (\<^verbatim>\<open>id\<close> in cooccur.c, \<^verbatim>\<open>count\<close> in vocab\_count.c); the table maps a
  bucket to its chain.  The search loop shared by \<^verbatim>\<open>hashsearch\<close> and \<^verbatim>\<open>hashinsert\<close>
  \<^verbatim>\<open>for (hprv = NULL, htmp = ht[hval]; htmp != NULL && scmp(htmp->word, w) != 0;
       hprv = htmp, htmp = htmp->next);\<close>
  returns the nodes before the hit, the hit and the nodes after it.
\<close>

type_synonym HASHREC = "string \<times> int"

type_synonym hashtable = "32 word \<Rightarrow> HASHREC list"

definition inithashtable :: hashtable where
  "inithashtable = (\<lambda>i. [])"

fun chain_search ::
  "bool \<Rightarrow> string \<Rightarrow> HASHREC list \<Rightarrow> HASHREC list \<Rightarrow> (HASHREC list \<times> HASHREC \<times> HASHREC list) option" where
  "chain_search sc w hprv [] = None"
| "chain_search sc w hprv (htmp # rest) =
     (if scmp sc (fst htmp) w \<noteq> 0 then chain_search sc w (hprv @ [htmp]) rest
      else Some (hprv, htmp, rest))"

subsection \<open>A sort by a C comparison function\<close>

text \<open>
  \<^verbatim>\<open>qsort\<close> of the C library: the result is sorted for the comparison function and a
  permutation of the array; the order of elements that compare equal is unspecified in C.
  The model is the insertion sort, which keeps them in their order.
\<close>

fun qsort_insert :: "('a \<Rightarrow> 'a \<Rightarrow> int) \<Rightarrow> 'a \<Rightarrow> 'a list \<Rightarrow> 'a list" where
  "qsort_insert cmp x [] = [x]"
| "qsort_insert cmp x (y # ys) =
     (if cmp x y \<le> 0 then x # y # ys else y # qsort_insert cmp x ys)"

definition qsort :: "('a \<Rightarrow> 'a \<Rightarrow> int) \<Rightarrow> 'a list \<Rightarrow> 'a list" where
  "qsort cmp xs = foldr (qsort_insert cmp) xs []"

subsection \<open>Machine arithmetic: int and double\<close>

text \<open>
  The value of an expression of type \<^verbatim>\<open>int\<close> (32 bits, two's complement) whose
  mathematical value is \<open>x\<close>: the result wraps around.  (ISO C leaves the overflow of
  \<^verbatim>\<open>int\<close> undefined; the wrap-around is what the compiled subtraction does.)
\<close>

definition int32 :: "int \<Rightarrow> int" where
  "int32 x = (x + 2147483648) mod 4294967296 - 2147483648"

text \<open>
  \<^verbatim>\<open>typedef double real;\<close>  A \<^verbatim>\<open>double\<close> (IEEE 754 binary64) is a finite number, an
  infinity (\<open>Infinite True\<close> is the negative one) or not a number.  A finite double is
  given by the real number it denotes; the two zeros are one value (they compare equal in C
  and differ only in the sign bit).

  \<open>round_double x\<close> is the nearest number \<open>m * 2 ^ q\<close> with an integer \<open>\<bar>m\<bar> \<le> 2 ^ 53\<close> and
  \<open>q = max \<lfloor>log\<^sub>2 \<bar>x\<bar>\<rfloor> (- 1022) - 52\<close>, ties going to the even \<open>m\<close>: rounding to nearest
  with 53 significant bits and gradual underflow.  \<open>ilen n\<close> is the number of binary digits
  of \<open>n\<close>.  A rounded result of magnitude \<open>2 ^ 1024\<close> or more, that is with
  \<open>1024 \<le> \<lfloor>log\<^sub>2 \<bar>x\<bar>\<rfloor>\<close>, is an infinity.
\<close>

datatype double = Finite real | Infinite bool | NaN

function ilen :: "int \<Rightarrow> int" where
  "ilen n = (if n \<le> 0 then 0 else 1 + ilen (n div 2))"
  by pat_completeness auto
termination
  by (relation "measure nat") auto

definition floor_log2 :: "real \<Rightarrow> int" where
  "floor_log2 x = (if 1 \<le> x then ilen \<lfloor>x\<rfloor> - 1 else - ilen (\<lceil>1 / x\<rceil> - 1))"

definition pow2 :: "int \<Rightarrow> real" where
  "pow2 e = (if 0 \<le> e then 2 ^ nat e else 1 / 2 ^ nat (- e))"

definition round_even :: "real \<Rightarrow> int" where
  "round_even x =
     (let n = \<lfloor>x\<rfloor>; r = x - of_int n
      in if r < 1 / 2 then n else if 1 / 2 < r then n + 1 else if even n then n else n + 1)"

definition round_double :: "real \<Rightarrow> real" where
  "round_double x =
     (if x = 0 then 0
      else (let q = pow2 (max (floor_log2 \<bar>x\<bar>) (- 1022) - 52)
            in of_int (round_even (x / q)) * q))"

definition overflow :: "real \<Rightarrow> double" where
  "overflow x = (if x \<noteq> 0 \<and> 1024 \<le> floor_log2 \<bar>x\<bar> then Infinite (x < 0) else Finite x)"

text \<open>The addition of two doubles, \<^verbatim>\<open>x + y\<close> or \<^verbatim>\<open>x += y\<close>.\<close>

fun double_add :: "double \<Rightarrow> double \<Rightarrow> double" where
  "double_add (Finite x) (Finite y) = overflow (round_double (x + y))"
| "double_add (Finite x) (Infinite s) = Infinite s"
| "double_add (Infinite s) (Finite y) = Infinite s"
| "double_add (Infinite s) (Infinite t) = (if s = t then Infinite s else NaN)"
| "double_add NaN y = NaN"
| "double_add x NaN = NaN"

text \<open>
  \<^verbatim>\<open>1.0/((real)(j-k))\<close>: the difference \<open>d\<close> of two \<^verbatim>\<open>long long\<close> is converted to
  \<^verbatim>\<open>double\<close> and divides 1; the conversion of 0 is the positive zero.
\<close>

definition inverse_distance :: "int \<Rightarrow> double" where
  "inverse_distance d =
     (if d = 0 then Infinite False else Finite (round_double (1 / round_double (real_of_int d))))"

text \<open>
  The sum of a list of doubles, added from left to right as \<^verbatim>\<open>merge_write\<close> does: the
  first is copied and the others are added to it one after the other.
\<close>

fun double_sum :: "double list \<Rightarrow> double" where
  "double_sum [] = Finite 0"
| "double_sum (v # vs) = foldl double_add v vs"

subsection \<open>Co-occurrence records (cooccur.c, lines 64-76)\<close>

text \<open>
  \<^verbatim>\<open>typedef struct cooccur_rec { int word1; int word2; real val; } CREC;\<close> and
  \<^verbatim>\<open>CRECID\<close>, the same with a further field \<^verbatim>\<open>int id\<close> (the run file a record was read
  from).  The fields \<^verbatim>\<open>word1\<close>, \<^verbatim>\<open>word2\<close> hold ranks, the line numbers of the vocabulary
  file; the comparison functions return the difference of two of them as an \<^verbatim>\<open>int\<close>.
\<close>

record CREC =
  word1 :: int
  word2 :: int
  val :: double

record CRECID = CREC +
  id' :: nat

definition key :: "'a CREC_scheme \<Rightarrow> int \<times> int" where
  "key r = (word1 r, word2 r)"

definition crec_of :: "CRECID \<Rightarrow> CREC" where
  "crec_of r = \<lparr>word1 = word1 r, word2 = word2 r, val = val r\<rparr>"

text \<open>\<^verbatim>\<open>compare_crec\<close> (lines 219-224) and \<^verbatim>\<open>compare_crecid\<close> (lines 227-231).\<close>

definition compare_crec :: "CREC \<Rightarrow> CREC \<Rightarrow> int" where
  "compare_crec a b =
     (let c = int32 (word1 a - word1 b) in if c \<noteq> 0 then c else int32 (word2 a - word2 b))"

definition compare_crecid :: "CRECID \<Rightarrow> CRECID \<Rightarrow> int" where
  "compare_crecid a b =
     (let c = int32 (word1 a - word1 b) in if c \<noteq> 0 then c else int32 (word2 a - word2 b))"

subsection \<open>The priority queue of merge\_files (cooccur.c, lines 234-270)\<close>

definition swap_entry :: "CRECID list \<Rightarrow> nat \<Rightarrow> nat \<Rightarrow> CRECID list" where
  "swap_entry pq i j = (let temp = pq ! i in (pq[i := pq ! j])[j := temp])"

text \<open>
  \<^verbatim>\<open>while ((p = (j-1)/2) >= 0) { if (compare_crecid(pq[p],pq[j]) > 0) {swap_entry(pq,p,j); j = p;}
  else break; }\<close>
  For \<open>j = 0\<close> C's truncating division gives \<open>p = 0\<close>, as the subtraction on \<^typ>\<open>nat\<close> does;
  the loop then leaves through \<^verbatim>\<open>break\<close>.
\<close>

function insert_loop :: "CRECID list \<Rightarrow> nat \<Rightarrow> CRECID list" where
  "insert_loop pq j =
     (let p = (j - 1) div 2 in
      if compare_crecid (pq ! p) (pq ! j) > 0 then insert_loop (swap_entry pq p j) p else pq)"
  by pat_completeness auto
termination
proof (relation "measure (\<lambda>(pq, j). j)")
  show "wf (measure (\<lambda>(pq, j). j))" by simp
next
  fix pq :: "CRECID list" and j p :: nat
  assume p: "p = (j - 1) div 2" and c: "0 < compare_crecid (pq ! p) (pq ! j)"
  have "j \<noteq> 0"
  proof
    assume "j = 0"
    with p c show False by (simp add: compare_crecid_def int32_def)
  qed
  with p show "((swap_entry pq p j, p), pq, j) \<in> measure (\<lambda>(pq, j). j)" by simp
qed

definition insert_pq :: "CRECID list \<Rightarrow> CRECID \<Rightarrow> nat \<Rightarrow> CRECID list" where
  "insert_pq pq new sz = insert_loop (pq[sz - 1 := new]) (sz - 1)"

text \<open>
  \<^verbatim>\<open>delete\<close>: the last entry replaces the root and sinks; the heap then occupies
  \<open>pq[0 .. size-2]\<close>.
\<close>

function delete_loop :: "CRECID list \<Rightarrow> nat \<Rightarrow> nat \<Rightarrow> CRECID list" where
  "delete_loop pq sz p =
     (let j = 2 * p + 1 in
      if j + 1 < sz then
        (if j + 2 = sz then
           (if compare_crecid (pq ! p) (pq ! j) > 0 then swap_entry pq p j else pq)
         else if compare_crecid (pq ! j) (pq ! (j + 1)) < 0 then
           (if compare_crecid (pq ! p) (pq ! j) > 0
            then delete_loop (swap_entry pq p j) sz j else pq)
         else
           (if compare_crecid (pq ! p) (pq ! (j + 1)) > 0
            then delete_loop (swap_entry pq p (j + 1)) sz (j + 1) else pq))
      else pq)"
  by pat_completeness auto
termination
  by (relation "measure (\<lambda>(pq, sz, p). sz - p)") auto

definition delete_pq :: "CRECID list \<Rightarrow> nat \<Rightarrow> CRECID list" where
  "delete_pq pq sz = delete_loop (pq[0 := pq ! (sz - 1)]) sz 0"

subsection \<open>merge\_files (cooccur.c, lines 273-338)\<close>

text \<open>
  A run file is the list of records still to be read from it.
  \<^verbatim>\<open>fread(&new, sizeof(CREC), 1, fid[i])\<close> overwrites the first three fields of \<^verbatim>\<open>new\<close>
  when a record is left; at the end of the file it reads nothing, leaves \<^verbatim>\<open>new\<close> as it
  was and sets the end-of-file indicator, which is the third component of the result.  Every
  handle index the program uses is below \<^verbatim>\<open>num\<close>; the model reads an index outside
  \<open>fid\<close> as an exhausted file.
\<close>

definition fread_crec :: "CRECID \<Rightarrow> CREC list list \<Rightarrow> nat \<Rightarrow> CRECID \<times> CREC list list \<times> bool" where
  "fread_crec new fid i =
     (if i < length fid then
        (case fid ! i of
           [] \<Rightarrow> (new, fid, True)
         | r # rs \<Rightarrow> (new\<lparr>word1 := word1 r, word2 := word2 r, val := val r\<rparr>, fid[i := rs], False))
      else (new, fid, True))"

text \<open>
  \<^verbatim>\<open>merge_write\<close>: returns the new \<^verbatim>\<open>old\<close> and the records written so far.
\<close>

definition merge_write :: "CRECID \<Rightarrow> CRECID \<Rightarrow> CREC list \<Rightarrow> CRECID \<times> CREC list" where
  "merge_write new old fout =
     (if word1 new = word1 old \<and> word2 new = word2 old
      then (old\<lparr>val := double_add (val old) (val new)\<rparr>, fout)
      else (new, fout @ [crec_of old]))"

text \<open>
  The first loop (lines 296-303): the first record of every file enters the queue.  The
  result of \<^verbatim>\<open>fread\<close> is not tested here.
\<close>

function prime_loop ::
  "nat \<Rightarrow> nat \<Rightarrow> CRECID list \<Rightarrow> CRECID \<Rightarrow> CREC list list \<Rightarrow> CRECID list \<times> CRECID \<times> CREC list list" where
  "prime_loop num i pq new fid =
     (if i < num then
        (case fread_crec new fid i of (new1, fid1, eof) \<Rightarrow>
           (let new2 = new1\<lparr>id' := i\<rparr> in
            prime_loop num (i + 1) (insert_pq pq new2 (i + 1)) new2 fid1))
      else (pq, new, fid))"
  by pat_completeness auto
termination
  by (relation "measure (\<lambda>(num, i, pq, new, fid). num - i)") auto

text \<open>
  Lines 308-315 and again 321-328: remove the top node and refill the queue from the file
  the node came from.
\<close>

definition pop_refill ::
  "CRECID list \<times> nat \<times> CRECID \<times> CREC list list \<Rightarrow> CRECID list \<times> nat \<times> CRECID \<times> CREC list list" where
  "pop_refill st =
     (case st of (pq, sz, new, fid) \<Rightarrow>
        (let i = id' (pq ! 0);
             pq1 = delete_pq pq sz
         in case fread_crec new fid i of (new1, fid1, eof) \<Rightarrow>
              if eof then (pq1, sz - 1, new1, fid1)
              else (let new2 = new1\<lparr>id' := i\<rparr> in (insert_pq pq1 new2 sz, sz, new2, fid1))))"

fun remaining :: "CRECID list \<times> nat \<times> CRECID \<times> CREC list list \<Rightarrow> nat" where
  "remaining (pq, sz, new, fid) = sz + sum_list (map length fid)"

text \<open>The main loop (lines 318-329).\<close>

function merge_loop ::
  "CRECID list \<times> nat \<times> CRECID \<times> CREC list list \<Rightarrow> CRECID \<Rightarrow> CREC list \<Rightarrow> CRECID \<times> CREC list" where
  "merge_loop st old fout =
     (case st of (pq, sz, new, fid) \<Rightarrow>
        if sz > 0 then
          (case merge_write (pq ! 0) old fout of (old1, fout1) \<Rightarrow>
             merge_loop (pop_refill st) old1 fout1)
        else (old, fout))"
  by pat_completeness auto
termination
proof (relation "measure (\<lambda>(st, old, fout). remaining st)")
  show "wf (measure (\<lambda>(st, old, fout). remaining st))" by simp
next
  fix st :: "CRECID list \<times> nat \<times> CRECID \<times> CREC list list" and old :: CRECID
    and fout :: "CREC list" and pq x2 sz y new fid xa ya
  assume st: "(pq, x2) = st" "(sz, y) = x2" "(new, fid) = y" and sz: "0 < sz"
  have upd: "i < length fs \<Longrightarrow> fs ! i = r # rs \<Longrightarrow>
      Suc (sum_list (map length (fs[i := rs]))) = sum_list (map length fs)"
    for i and fs :: "CREC list list" and r rs
  proof (induction fs arbitrary: i)
    case Nil
    then show ?case by simp
  next
    case (Cons f fs)
    then show ?case by (cases i) auto
  qed
  have "remaining (pop_refill (pq, sz, new, fid)) < remaining (pq, sz, new, fid)"
    using upd [of "id' (pq ! 0)" fid] sz
    by (auto simp: pop_refill_def fread_crec_def Let_def split: list.splits prod.splits)
  with st show "((pop_refill st, xa, ya), st, old, fout) \<in> measure (\<lambda>(st, old, fout). remaining st)"
    by auto
qed

text \<open>
  \<^verbatim>\<open>merge_files(num)\<close>.  The array \<^verbatim>\<open>pq\<close> comes from \<^verbatim>\<open>malloc\<close> and \<^verbatim>\<open>new\<close> is an
  uninitialised local variable: what they hold at first, \<open>mem i\<close> in \<^verbatim>\<open>pq[i]\<close> and
  \<open>new0\<close>, are parameters.  The result is what is written to standard output.
\<close>

definition merge_files :: "nat \<Rightarrow> CREC list list \<Rightarrow> (nat \<Rightarrow> CRECID) \<Rightarrow> CRECID \<Rightarrow> CREC list" where
  "merge_files num files mem new0 =
     (case prime_loop num 0 (map mem [0 ..< num]) new0 files of (pq, new, fid) \<Rightarrow>
        (let old = pq ! 0 in
         case merge_loop (pop_refill (pq, num, new, fid)) old [] of (old1, fout) \<Rightarrow>
           fout @ [crec_of old1]))"

subsection \<open>The lookup table of the dense array (cooccur.c, get\_cooccurrence, lines 387-399)\<close>

text \<open>
  \<^verbatim>\<open>lookup = calloc(vocab_size + 1, ...); lookup[0] = 1;
  for (a = 1; a <= vocab_size; a++) {
      if ((lookup[a] = max_product / a) < vocab_size) lookup[a] += lookup[a-1];
      else lookup[a] = lookup[a-1] + vocab_size;
  }\<close>
\<close>

function lookup_loop :: "int \<Rightarrow> int \<Rightarrow> int \<Rightarrow> int list \<Rightarrow> int list" where
  "lookup_loop max_product vocab_size a lookup =
     (if a \<le> vocab_size then
        (let q = max_product sdiv a;
             lookup' = (if q < vocab_size
                        then lookup[nat a := q + lookup ! nat (a - 1)]
                        else lookup[nat a := lookup ! nat (a - 1) + vocab_size])
         in lookup_loop max_product vocab_size (a + 1) lookup')
      else lookup)"
  by pat_completeness auto
termination
  by (relation "measure (\<lambda>(m, v, a, l). nat (v + 1 - a))") auto

definition build_lookup :: "int \<Rightarrow> int \<Rightarrow> int list" where
  "build_lookup max_product vocab_size =
     lookup_loop max_product vocab_size 1 ((replicate (nat (vocab_size + 1)) 0)[0 := 1])"

text \<open>The index expression \<^verbatim>\<open>lookup[w1-1] + w2 - 2\<close> of lines 465, 467 and 516.\<close>

definition cell :: "int list \<Rightarrow> int \<Rightarrow> int \<Rightarrow> int" where
  "cell lookup w1 w2 = lookup ! nat (w1 - 1) + w2 - 2"

text \<open>
  The cells the table reserves: the dump loop of lines 509-525 visits
  \<open>x = 1..vocab_size\<close>, \<open>y = 1..lookup[x] - lookup[x-1]\<close>.
\<close>

definition reserved :: "int list \<Rightarrow> int \<Rightarrow> int \<Rightarrow> int \<Rightarrow> bool" where
  "reserved lookup vocab_size x y \<longleftrightarrow>
     1 \<le> x \<and> x \<le> vocab_size \<and> 1 \<le> y \<and> y \<le> lookup ! nat x - lookup ! nat (x - 1)"

subsection \<open>Reading the corpus: get\_word (cooccur.c, lines 164-193)\<close>

text \<open>
  The input stream is the list of bytes not yet read and its end-of-file indicator.
  The buffer \<^verbatim>\<open>word\<close> is modelled by the bytes \<^verbatim>\<open>word[0..i-1]\<close> written so far:
  \<^verbatim>\<open>word[i++] = ch; if (i >= MAX_STRING_LENGTH - 1) i--;\<close>
\<close>

definition MAX_STRING_LENGTH :: nat where
  "MAX_STRING_LENGTH = 1000"

definition store_char :: "string \<Rightarrow> char \<Rightarrow> string" where
  "store_char word ch =
     (let word' = word @ [ch]
      in if length word' \<ge> MAX_STRING_LENGTH - 1 then butlast word' else word')"

text \<open>
  At the end of the input \<^verbatim>\<open>fgetc\<close> returns \<^verbatim>\<open>EOF\<close> (-1) and sets the indicator; the
  value is neither 13 nor white space, so it is stored (as the byte 0xFF) before the loop
  condition \<^verbatim>\<open>!feof(fin)\<close> ends the loop.  \<^verbatim>\<open>ungetc\<close> puts the newline back.
\<close>

fun get_word_loop :: "string \<Rightarrow> string \<Rightarrow> int \<times> string \<times> string \<times> bool" where
  "get_word_loop word [] = (0, store_char word (CHR 0xFF), [], True)"
| "get_word_loop word (ch # fin) =
     (if ch = CHR 0x0D then get_word_loop word fin
      else if ch = CHR '' '' \<or> ch = CHR 0x09 \<or> ch = CHR 0x0A then
        (if word \<noteq> [] then (0, word, (if ch = CHR 0x0A then ch # fin else fin), False)
         else if ch = CHR 0x0A then (1, word, fin, False)
         else get_word_loop word fin)
      else get_word_loop (store_char word ch) fin)"

definition get_word :: "string \<times> bool \<Rightarrow> int \<times> string \<times> string \<times> bool" where
  "get_word fin = (if snd fin then (0, [], fin) else get_word_loop [] (fst fin))"

subsection \<open>The vocabulary hash of cooccur.c (lines 124-160)\<close>

text \<open>\<^verbatim>\<open>hashsearch\<close>: the hit moves to the front of its chain.\<close>

definition hashsearch :: "bool \<Rightarrow> hashtable \<Rightarrow> string \<Rightarrow> HASHREC option \<times> hashtable" where
  "hashsearch sc ht w =
     (let hval = bitwisehash sc w TSIZE SEED
      in case chain_search sc w [] (ht hval) of
           None \<Rightarrow> (None, ht)
         | Some (hprv, htmp, rest) \<Rightarrow>
             (Some htmp, if hprv \<noteq> [] then ht(hval := htmp # hprv @ rest) else ht))"

text \<open>\<^verbatim>\<open>hashinsert\<close>: a new word goes to the end of its chain; a duplicate only prints an error.\<close>

definition hashinsert :: "bool \<Rightarrow> hashtable \<Rightarrow> string \<Rightarrow> int \<Rightarrow> hashtable" where
  "hashinsert sc ht w ident =
     (let hval = bitwisehash sc w TSIZE SEED
      in case chain_search sc w [] (ht hval) of
           None \<Rightarrow> ht(hval := ht hval @ [(w, ident)])
         | Some hit \<Rightarrow> ht)"

text \<open>
  The vocabulary file is the list of its words, one per line, in the order of the lines
  (the count after each word is read and ignored):
  \<^verbatim>\<open>while (fscanf(fid, format, str, &id) != EOF) hashinsert(vocab_hash, str, ++j);\<close>
\<close>

fun read_vocab :: "bool \<Rightarrow> string list \<Rightarrow> hashtable \<Rightarrow> int \<Rightarrow> hashtable \<times> int" where
  "read_vocab sc [] ht j = (ht, j)"
| "read_vocab sc (str # vocab_file) ht j = read_vocab sc vocab_file (hashinsert sc ht str (j + 1)) (j + 1)"

subsection \<open>Writing a sorted chunk (cooccur.c, lines 197-215)\<close>

fun write_chunk_loop :: "CREC \<Rightarrow> CREC list \<Rightarrow> CREC list" where
  "write_chunk_loop old [] = [old]"
| "write_chunk_loop old (c # cr) =
     (if word1 c = word1 old \<and> word2 c = word2 old
      then write_chunk_loop (old\<lparr>val := double_add (val old) (val c)\<rparr>) cr
      else old # write_chunk_loop c cr)"

definition write_chunk :: "CREC list \<Rightarrow> CREC list" where
  "write_chunk cr = (case cr of [] \<Rightarrow> [] | c # cs \<Rightarrow> write_chunk_loop c cs)"

subsection \<open>get\_cooccurrence (cooccur.c, lines 342-537)\<close>

text \<open>The global variables set from the command line, and the signedness of \<^verbatim>\<open>char\<close>.\<close>

record config =
  window_size :: int
  symmetric :: int
  max_product :: int
  overflow_length :: int
  signed_char :: bool

text \<open>
  The local variables of the streaming loop.  \<open>cr_buf\<close> is \<^verbatim>\<open>cr[0..ind-1]\<close>, so
  \<^verbatim>\<open>ind\<close> is its length; \<open>line_j\<close> is \<^verbatim>\<open>j\<close>; \<open>overflow_files\<close> are the files
  \<^verbatim>\<open>overflow_0001.bin\<close> ... already closed, so \<^verbatim>\<open>fidcounter\<close> is their number plus one.
\<close>

record locals =
  line_j :: int
  cr_buf :: "CREC list"
  bigram_table :: "double list"
  history :: "int list"
  vocab_hash :: hashtable
  overflow_files :: "CREC list list"

text \<open>
  What the C program does not survive: a store behind the \<open>overflow_length + 1\<close> records
  allocated for \<^verbatim>\<open>cr\<close>, an index outside \<^verbatim>\<open>bigram_table\<close>, a window that is not
  positive (\<^verbatim>\<open>history[j % window_size]\<close>), and a table size \<^verbatim>\<open>calloc\<close> refuses.
\<close>

datatype error = CrOverrun int | TableIndex int | HistoryIndex | AllocFailure

definition table_add :: "double list \<Rightarrow> int \<Rightarrow> double \<Rightarrow> error + double list" where
  "table_add table i w =
     (if 0 \<le> i \<and> i < int (length table) then Inr (table[nat i := double_add (table ! nat i) w])
      else Inl (TableIndex i))"

definition cr_store :: "config \<Rightarrow> CREC list \<Rightarrow> CREC \<Rightarrow> error + CREC list" where
  "cr_store cfg cr r =
     (if int (length cr) < overflow_length cfg + 1 then Inr (cr @ [r])
      else Inl (CrOverrun (int (length cr))))"

text \<open>The body of the loop over the context words (lines 458-487) for one \<open>k\<close>.\<close>

definition pair_step :: "config \<Rightarrow> int list \<Rightarrow> int \<Rightarrow> int \<Rightarrow> locals \<Rightarrow> error + locals" where
  "pair_step cfg lookup w2 k s =
     (let w1 = history s ! nat (k mod window_size cfg);
          weight = inverse_distance (line_j s - k)
      in if w1 < max_product cfg sdiv w2 then
           (case table_add (bigram_table s) (cell lookup w1 w2) weight of
              Inl e \<Rightarrow> Inl e
            | Inr t1 \<Rightarrow>
                if symmetric cfg > 0 then
                  (case table_add t1 (cell lookup w2 w1) weight of
                     Inl e \<Rightarrow> Inl e
                   | Inr t2 \<Rightarrow> Inr (s\<lparr>bigram_table := t2\<rparr>))
                else Inr (s\<lparr>bigram_table := t1\<rparr>))
         else
           (case cr_store cfg (cr_buf s) \<lparr>word1 = w1, word2 = w2, val = weight\<rparr> of
              Inl e \<Rightarrow> Inl e
            | Inr c1 \<Rightarrow>
                if symmetric cfg > 0 then
                  (case cr_store cfg c1 \<lparr>word1 = w2, word2 = w1, val = weight\<rparr> of
                     Inl e \<Rightarrow> Inl e
                   | Inr c2 \<Rightarrow> Inr (s\<lparr>cr_buf := c2\<rparr>))
                else Inr (s\<lparr>cr_buf := c1\<rparr>)))"

text \<open>
  \<^verbatim>\<open>for (k = j - 1; k >= ( (j > window_size) ? j - window_size : 0 ); k--)\<close>
\<close>

function pair_loop :: "config \<Rightarrow> int list \<Rightarrow> int \<Rightarrow> int \<Rightarrow> locals \<Rightarrow> error + locals" where
  "pair_loop cfg lookup w2 k s =
     (if k \<ge> (if line_j s > window_size cfg then line_j s - window_size cfg else 0) then
        (case pair_step cfg lookup w2 k s of
           Inl e \<Rightarrow> Inl e
         | Inr s1 \<Rightarrow> pair_loop cfg lookup w2 (k - 1) s1)
      else Inr s)"
  by pat_completeness auto
termination
  by (relation "measure (\<lambda>(cfg, lookup, w2, k, s). nat (k + 1))") (auto split: if_splits)

text \<open>
  Lines 423-436: when the buffer is almost full it is sorted and written, merging equal
  keys, to the open overflow file; the next file is opened and the buffer is empty again.
\<close>

definition flush_overflow :: "config \<Rightarrow> locals \<Rightarrow> locals" where
  "flush_overflow cfg s =
     (if int (length (cr_buf s)) \<ge> overflow_length cfg - window_size cfg
      then s\<lparr>overflow_files := overflow_files s @ [write_chunk (qsort compare_crec (cr_buf s))],
             cr_buf := []\<rparr>
      else s)"

text \<open>The loop \<^verbatim>\<open>while (1)\<close> of lines 421-493.\<close>

function token_loop :: "config \<Rightarrow> int list \<Rightarrow> locals \<Rightarrow> string \<times> bool \<Rightarrow> error + locals" where
  "token_loop cfg lookup s fid =
     (let s1 = flush_overflow cfg s in
      case get_word fid of (flag, str, fid1) \<Rightarrow>
        if snd fid1 then Inr s1
        else if flag = 1 then token_loop cfg lookup (s1\<lparr>line_j := 0\<rparr>) fid1
        else
          (case hashsearch (signed_char cfg) (vocab_hash s1) (c_string str) of (htmp, ht) \<Rightarrow>
             (case htmp of
                None \<Rightarrow> token_loop cfg lookup (s1\<lparr>vocab_hash := ht\<rparr>) fid1
              | Some rec \<Rightarrow>
                  if window_size cfg \<le> 0 then Inl HistoryIndex
                  else
                    (let w2 = snd rec; j = line_j s1
                     in case pair_loop cfg lookup w2 (j - 1) (s1\<lparr>vocab_hash := ht\<rparr>) of
                          Inl e \<Rightarrow> Inl e
                        | Inr s2 \<Rightarrow>
                            token_loop cfg lookup
                              (s2\<lparr>history := (history s2)[nat (j mod window_size cfg) := w2],
                                  line_j := j + 1\<rparr>) fid1))))"
  by pat_completeness auto
termination
proof (relation "measure (\<lambda>(cfg, lookup, s, fid). length (fst fid))")
  show "wf (measure (\<lambda>(cfg, lookup, s, fid). length (fst fid)))" by simp
next
  have loop: "get_word_loop w cs = (flag, str, cs', eof') \<Longrightarrow>
      length cs' \<le> length cs \<and> (w = [] \<longrightarrow> \<not> eof' \<longrightarrow> length cs' < length cs)"
    for w cs flag str cs' eof'
  proof (induction w cs rule: get_word_loop.induct)
    case (1 word)
    then show ?case by simp
  next
    case (2 word ch fin)
    show ?case
    proof (cases "ch = CHR 0x0D")
      case True
      with 2 show ?thesis by auto
    next
      case cr: False
      show ?thesis
      proof (cases "ch = CHR '' '' \<or> ch = CHR 0x09 \<or> ch = CHR 0x0A")
        case True
        with cr 2 show ?thesis by (cases "word = []"; cases "ch = CHR 0x0A") auto
      next
        case False
        with cr "2.prems" have "get_word_loop (store_char word ch) fin = (flag, str, cs', eof')"
          by simp
        with "2.IH"(3) [OF cr False] have "length cs' \<le> length fin" by simp
        then show ?thesis by simp
      qed
    qed
  qed
  have gw: "get_word fid = (flag, str, fid1) \<Longrightarrow> \<not> snd fid1 \<Longrightarrow> length (fst fid1) < length (fst fid)"
    for fid flag str fid1
    using loop [of "[]" "fst fid" flag str "fst fid1" "snd fid1"]
    by (cases fid1) (auto simp: get_word_def split: if_splits)
  {
    fix cfg :: config and lookup :: "int list" and s s1 :: locals and fid fid1 :: "string \<times> bool"
      and flag :: int and str :: string and x2 :: "string \<times> string \<times> bool"
    assume "(flag, x2) = get_word fid" "(str, fid1) = x2" "\<not> snd fid1"
    then have "length (fst fid1) < length (fst fid)" using gw [of fid flag str fid1] by auto
  }
  note dec = this
  show "\<And>cfg lookup s fid x xa y xb ya.
       x = flush_overflow cfg s \<Longrightarrow> (xa, y) = get_word fid \<Longrightarrow> (xb, ya) = y \<Longrightarrow>
       \<not> snd ya \<Longrightarrow> xa = 1 \<Longrightarrow>
       ((cfg, lookup, x\<lparr>line_j := 0\<rparr>, ya), cfg, lookup, s, fid)
       \<in> measure (\<lambda>(cfg, lookup, s, fid). length (fst fid))"
    using dec by auto
  show "\<And>cfg lookup s fid x xa y xb ya xc xd yb.
       x = flush_overflow cfg s \<Longrightarrow> (xa, y) = get_word fid \<Longrightarrow> (xb, ya) = y \<Longrightarrow>
       \<not> snd ya \<Longrightarrow> xa \<noteq> 1 \<Longrightarrow>
       (xd, yb) = hashsearch (signed_char cfg) (vocab_hash x) (c_string xb) \<Longrightarrow> xd = None \<Longrightarrow>
       ((cfg, lookup, x\<lparr>vocab_hash := yb\<rparr>, ya), cfg, lookup, s, fid)
       \<in> measure (\<lambda>(cfg, lookup, s, fid). length (fst fid))"
    using dec by auto
  show "\<And>cfg lookup s fid x xa y xb ya xc xd yb x2 xe xf x2a.
       x = flush_overflow cfg s \<Longrightarrow> (xa, y) = get_word fid \<Longrightarrow> (xb, ya) = y \<Longrightarrow>
       \<not> snd ya \<Longrightarrow> xa \<noteq> 1 \<Longrightarrow>
       (xd, yb) = hashsearch (signed_char cfg) (vocab_hash x) (c_string xb) \<Longrightarrow> xd = Some x2 \<Longrightarrow>
       \<not> window_size cfg \<le> 0 \<Longrightarrow> xe = snd x2 \<Longrightarrow> xf = line_j x \<Longrightarrow>
       pair_loop cfg lookup xe (xf - 1) (x\<lparr>vocab_hash := yb\<rparr>) = Inr x2a \<Longrightarrow>
       ((cfg, lookup, x2a\<lparr>history := (history x2a)[nat (xf mod window_size cfg) := xe], line_j := xf + 1\<rparr>, ya),
        cfg, lookup, s, fid)
       \<in> measure (\<lambda>(cfg, lookup, s, fid). length (fst fid))"
    using dec by auto
qed

text \<open>
  Lines 509-525: the dense table is written to \<^verbatim>\<open>overflow_0000.bin\<close>, zero cells left out.
\<close>

definition dense_row :: "int list \<Rightarrow> double list \<Rightarrow> int \<Rightarrow> CREC list" where
  "dense_row lookup table x =
     concat (map (\<lambda>y. let r = table ! nat (lookup ! nat (x - 1) - 2 + y)
                      in if r \<noteq> Finite 0 then [\<lparr>word1 = x, word2 = y, val = r\<rparr>] else [])
                 [1 .. lookup ! nat x - lookup ! nat (x - 1)])"

definition write_dense :: "int \<Rightarrow> int list \<Rightarrow> double list \<Rightarrow> CREC list" where
  "write_dense vocab_size lookup table = concat (map (dense_row lookup table) [1 .. vocab_size])"

text \<open>
  \<^verbatim>\<open>get_cooccurrence\<close> up to the call of \<^verbatim>\<open>merge_files(fidcounter + 1)\<close>: the run files
  \<^verbatim>\<open>overflow_0000.bin\<close>, \<^verbatim>\<open>overflow_0001.bin\<close>, ..., in this order.
\<close>

definition get_cooccurrence_runs :: "config \<Rightarrow> string list \<Rightarrow> string \<Rightarrow> error + CREC list list" where
  "get_cooccurrence_runs cfg vocab_file stdin =
     (case read_vocab (signed_char cfg) vocab_file inithashtable 0 of (ht, vocab_size) \<Rightarrow>
        (let lookup = build_lookup (max_product cfg) vocab_size
         in if lookup ! nat vocab_size < 0 then Inl AllocFailure
            else
              (case token_loop cfg lookup
                      \<lparr>line_j = 0, cr_buf = [],
                       bigram_table = replicate (nat (lookup ! nat vocab_size)) (Finite 0),
                       history = replicate (nat (window_size cfg)) 0,
                       vocab_hash = ht, overflow_files = []\<rparr>
                      (stdin, False) of
                 Inl e \<Rightarrow> Inl e
               | Inr s \<Rightarrow>
                   Inr (write_dense vocab_size lookup (bigram_table s)
                        # overflow_files s @ [write_chunk (qsort compare_crec (cr_buf s))]))))"

text \<open>The whole program: the run files are merged to standard output.\<close>

definition get_cooccurrence ::
  "config \<Rightarrow> string list \<Rightarrow> string \<Rightarrow> (nat \<Rightarrow> CRECID) \<Rightarrow> CRECID \<Rightarrow> error + CREC list" where
  "get_cooccurrence cfg vocab_file stdin mem new0 =
     (case get_cooccurrence_runs cfg vocab_file stdin of
        Inl e \<Rightarrow> Inl e
      | Inr runs \<Rightarrow> Inr (merge_files (length runs) runs mem new0))"

subsection \<open>shuffle.c: random numbers and the Fisher-Yates loop (lines 673-732 of the listing)\<close>

text \<open>
  \<^verbatim>\<open>rand()\<close> is modelled by a tape of the values it returns, each in \<open>0..RAND_MAX\<close>; a
  call on the empty tape has no result (\<open>None\<close>), so the rejection loop of
  \<^verbatim>\<open>rand_long\<close> is a recursion on the tape.  \<^verbatim>\<open>RAND_MAX\<close> is the value of glibc.
\<close>

definition RAND_MAX :: int where
  "RAND_MAX = 2147483647"

definition LRAND_MAX :: int where
  "LRAND_MAX = (RAND_MAX + 2) * RAND_MAX"

fun rand_long :: "int \<Rightarrow> int list \<Rightarrow> (int \<times> int list) option" where
  "rand_long n (a # b # rng) =
     (let limit = LRAND_MAX - LRAND_MAX mod n;
          rnd = (RAND_MAX + 1) * a + b
      in if rnd \<ge> limit then rand_long n rng else Some (rnd mod n, rng))"
| "rand_long n rng = None"

text \<open>
  \<^verbatim>\<open>for (i = n - 1; i > 0; i--) { j = rand_long(i + 1);
       tmp = array[j]; array[j] = array[i]; array[i] = tmp; }\<close>
\<close>

function shuffle_loop :: "CREC list \<Rightarrow> int \<Rightarrow> int list \<Rightarrow> (CREC list \<times> int list) option" where
  "shuffle_loop array i rng =
     (if i > 0 then
        (case rand_long (i + 1) rng of
           None \<Rightarrow> None
         | Some (j, rng1) \<Rightarrow>
             (let tmp = array ! nat j
              in shuffle_loop ((array[nat j := array ! nat i])[nat i := tmp]) (i - 1) rng1))
      else Some (array, rng))"
  by pat_completeness auto
termination
  by (relation "measure (\<lambda>(array, i, rng). nat i)") auto

definition shuffle :: "CREC list \<Rightarrow> int \<Rightarrow> int list \<Rightarrow> (CREC list \<times> int list) option" where
  "shuffle array n rng = shuffle_loop array (n - 1) rng"

subsection \<open>shuffle\_by\_chunks (lines 803-868 of the listing)\<close>

text \<open>
  The standard input is the list of its records.  \<open>array\<close> is the filled part
  \<^verbatim>\<open>array[0..i-1]\<close> of the buffer, so \<^verbatim>\<open>i\<close> is its length; \<open>files\<close> are the temporary
  files already closed.  The result of the first phase is the list of all temporary
  files, the last one included.
\<close>

fun chunk_loop ::
  "int \<Rightarrow> CREC list \<Rightarrow> CREC list list \<Rightarrow> int list \<Rightarrow> CREC list \<Rightarrow> (CREC list list \<times> int list) option" where
  "chunk_loop array_size array files rng [] =
     (case (if int (length array) \<ge> array_size
            then (case shuffle array (int (length array) - 2) rng of
                    None \<Rightarrow> None
                  | Some (a, rng1) \<Rightarrow> Some ([], files @ [a], rng1))
            else Some (array, files, rng)) of
        None \<Rightarrow> None
      | Some (array1, files1, rng1) \<Rightarrow>
          (case shuffle array1 (int (length array1) - 2) rng1 of
             None \<Rightarrow> None
           | Some (a, rng2) \<Rightarrow> Some (files1 @ [a], rng2)))"
| "chunk_loop array_size array files rng (r # fin) =
     (case (if int (length array) \<ge> array_size
            then (case shuffle array (int (length array) - 2) rng of
                    None \<Rightarrow> None
                  | Some (a, rng1) \<Rightarrow> Some ([], files @ [a], rng1))
            else Some (array, files, rng)) of
        None \<Rightarrow> None
      | Some (array1, files1, rng1) \<Rightarrow> chunk_loop array_size (array1 @ [r]) files1 rng1 fin)"

subsection \<open>shuffle\_merge (lines 735-799 of the listing)\<close>

text \<open>
  A temporary file opened for reading: the records left and the end-of-file indicator.
  The inner loop \<^verbatim>\<open>for (k = 0; k < array_size / num; k++) { fread(&array[i], ...);
  if (feof(fid[j])) break; i++; }\<close> is \<open>read_records\<close>.
\<close>

fun read_records :: "nat \<Rightarrow> CREC list \<times> bool \<Rightarrow> CREC list \<times> (CREC list \<times> bool)" where
  "read_records 0 f = ([], f)"
| "read_records (Suc k) f =
     (case fst f of
        [] \<Rightarrow> ([], ([], True))
      | r # rs \<Rightarrow> (case read_records k (rs, snd f) of (got, f1) \<Rightarrow> (r # got, f1)))"

text \<open>\<^verbatim>\<open>for (j = 0; j < num; j++) { if (feof(fid[j])) continue; ... }\<close>\<close>

fun read_round :: "nat \<Rightarrow> (CREC list \<times> bool) list \<Rightarrow> CREC list \<times> (CREC list \<times> bool) list" where
  "read_round q [] = ([], [])"
| "read_round q (f # fid) =
     (case (if snd f then ([], f) else read_records q f) of (got, f1) \<Rightarrow>
        (case read_round q fid of (gots, fid1) \<Rightarrow> (got @ gots, f1 # fid1)))"

function merge_rounds ::
  "nat \<Rightarrow> (CREC list \<times> bool) list \<Rightarrow> int list \<Rightarrow> CREC list \<Rightarrow> CREC list option" where
  "merge_rounds q fid rng fout =
     (case read_round q fid of (array, fid1) \<Rightarrow>
        if array = [] then Some fout
        else (case shuffle array (int (length array) - 1) rng of
                None \<Rightarrow> None
              | Some (a, rng1) \<Rightarrow> merge_rounds q fid1 rng1 (fout @ a)))"
  by pat_completeness auto
termination
proof (relation "measure (\<lambda>(q, fid, rng, fout). sum_list (map (length \<circ> fst) fid))")
  show "wf (measure (\<lambda>(q, fid, rng, fout). sum_list (map (length \<circ> fst) fid)))" by simp
next
  have rec: "read_records k f = (got, f1) \<Longrightarrow> length (fst f1) + length got = length (fst f)"
    for k f got f1
  proof (induction k arbitrary: f got f1)
    case 0
    then show ?case by auto
  next
    case (Suc k)
    show ?case
    proof (cases "fst f")
      case Nil
      with Suc.prems show ?thesis by auto
    next
      case (Cons r rs)
      obtain got' f' where g: "read_records k (rs, snd f) = (got', f')"
        by (cases "read_records k (rs, snd f)") blast
      from Suc.IH [OF g] Suc.prems Cons g show ?thesis by auto
    qed
  qed
  have round: "read_round q fid = (array, fid1) \<Longrightarrow>
      sum_list (map (length \<circ> fst) fid1) + length array = sum_list (map (length \<circ> fst) fid)"
    for q fid array fid1
  proof (induction fid arbitrary: array fid1)
    case Nil
    then show ?case by auto
  next
    case (Cons f fid)
    obtain got f1 where a: "(if snd f then ([], f) else read_records q f) = (got, f1)"
      by (cases "if snd f then ([], f) else read_records q f") blast
    obtain gots fid' where b: "read_round q fid = (gots, fid')"
      by (cases "read_round q fid") blast
    have "length (fst f1) + length got = length (fst f)"
      using a rec [of q f got f1] by (auto split: if_splits)
    with Cons.IH [OF b] Cons.prems a b show ?case by auto
  qed
  fix q :: nat and fid fid1 :: "(CREC list \<times> bool) list" and rng rng1 :: "int list"
    and fout array a :: "CREC list" and x2 :: "CREC list \<times> int list"
  assume "(array, fid1) = read_round q fid" "array \<noteq> []"
  then show "((q, fid1, rng1, fout @ a), q, fid, rng, fout)
      \<in> measure (\<lambda>(q, fid, rng, fout). sum_list (map (length \<circ> fst) fid))"
    using round [of q fid array fid1] by (cases array) auto
qed

text \<open>
  \<^verbatim>\<open>shuffle_merge(num)\<close> reads \<^verbatim>\<open>array_size / num\<close> records of each file in a round.
\<close>

definition shuffle_merge :: "int \<Rightarrow> CREC list list \<Rightarrow> int list \<Rightarrow> CREC list option" where
  "shuffle_merge array_size files rng =
     merge_rounds (nat (array_size sdiv int (length files))) (map (\<lambda>f. (f, False)) files) rng []"

definition shuffle_by_chunks :: "int \<Rightarrow> CREC list \<Rightarrow> int list \<Rightarrow> CREC list option" where
  "shuffle_by_chunks array_size stdin rng =
     (case chunk_loop array_size [] [] rng stdin of
        None \<Rightarrow> None
      | Some (files, rng1) \<Rightarrow> shuffle_merge array_size files rng1)"

subsection \<open>vocab\_count.c\<close>

text \<open>
  \<^verbatim>\<open>fscanf(fid, "%1000s", str)\<close>: white space is skipped, then the bytes up to the next
  white space are read, at most 1000 of them; the rest of the input stays in the stream.
  The result \<^verbatim>\<open>EOF\<close> (\<open>None\<close>) means that the input ended before a byte was read.
\<close>

definition isspace :: "char \<Rightarrow> bool" where
  "isspace c \<longleftrightarrow> c = CHR '' '' \<or> c = CHR 0x09 \<or> c = CHR 0x0A \<or> c = CHR 0x0B \<or> c = CHR 0x0C \<or> c = CHR 0x0D"

fun scan_chars :: "nat \<Rightarrow> string \<Rightarrow> string \<times> string" where
  "scan_chars width [] = ([], [])"
| "scan_chars 0 (c # fid) = ([], c # fid)"
| "scan_chars (Suc width) (c # fid) =
     (if isspace c then ([], c # fid)
      else (case scan_chars width fid of (str, fid1) \<Rightarrow> (c # str, fid1)))"

definition fscanf_string :: "nat \<Rightarrow> string \<Rightarrow> (string \<times> string) option" where
  "fscanf_string width fid =
     (let fid1 = dropWhile isspace fid
      in if fid1 = [] then None else Some (scan_chars width fid1))"

text \<open>
  \<^verbatim>\<open>hashinsert\<close> of vocab\_count.c (lines 130-170): a new word enters the end of its chain
  with count 1; a known word is counted and moves to the front of its chain.
\<close>

definition hashinsert_count :: "bool \<Rightarrow> hashtable \<Rightarrow> string \<Rightarrow> hashtable" where
  "hashinsert_count sc ht w =
     (let hval = bitwisehash sc w TSIZE SEED
      in case chain_search sc w [] (ht hval) of
           None \<Rightarrow> ht(hval := ht hval @ [(w, 1)])
         | Some (hprv, htmp, rest) \<Rightarrow>
             (let htmp1 = (fst htmp, snd htmp + 1)
              in if hprv \<noteq> [] then ht(hval := htmp1 # hprv @ rest)
                 else ht(hval := htmp1 # rest)))"

text \<open>
  The loop of lines 194-204; \<open>Inl ()\<close> is the return with the error message about
  the token \<^verbatim>\<open><unk>\<close>.
\<close>

function count_tokens :: "bool \<Rightarrow> hashtable \<Rightarrow> string \<Rightarrow> unit + hashtable" where
  "count_tokens sc ht fid =
     (case fscanf_string MAX_STRING_LENGTH fid of
        None \<Rightarrow> Inr ht
      | Some (str, fid1) \<Rightarrow>
          if c_string str = ''<unk>'' then Inl ()
          else count_tokens sc (hashinsert_count sc ht (c_string str)) fid1)"
  by pat_completeness auto
termination
proof (relation "measure (\<lambda>(sc, ht, fid). length fid)")
  show "wf (measure (\<lambda>(sc, ht, fid). length fid))" by simp
next
  have sc: "cs \<noteq> [] \<Longrightarrow> \<not> isspace (hd cs) \<Longrightarrow> 0 < w \<Longrightarrow> length (snd (scan_chars w cs)) < length cs"
    for w cs
  proof (induction w cs rule: scan_chars.induct)
    case (1 width)
    then show ?case by simp
  next
    case (2 c fid)
    then show ?case by simp
  next
    case (3 width c fid)
    have "length (snd (scan_chars width fid)) \<le> length fid"
      by (induction width fid rule: scan_chars.induct) (auto split: prod.splits)
    with 3 show ?case by (auto split: prod.splits)
  qed
  fix sc :: bool and ht :: hashtable and fid fid1 str :: string and x2 :: "string \<times> string"
  assume a: "fscanf_string MAX_STRING_LENGTH fid = Some x2" "(str, fid1) = x2"
  define cs where "cs = dropWhile isspace fid"
  from a have ne: "cs \<noteq> []" and r: "scan_chars MAX_STRING_LENGTH cs = (str, fid1)"
    by (auto simp: fscanf_string_def Let_def cs_def split: if_splits)
  from ne have "\<not> isspace (hd cs)" unfolding cs_def by (rule hd_dropWhile)
  with sc [OF ne, of MAX_STRING_LENGTH] r have "length fid1 < length cs"
    by (simp add: MAX_STRING_LENGTH_def)
  also have "length cs \<le> length fid" unfolding cs_def by (rule length_dropWhile_le)
  finally show "((sc, hashinsert_count sc ht (c_string str), fid1), sc, ht, fid)
      \<in> measure (\<lambda>(sc, ht, fid). length fid)" by simp
qed

text \<open>
  Lines 210-224: the chains are copied to the array \<^verbatim>\<open>vocab\<close>, bucket after bucket.  An
  entry \<^verbatim>\<open>VOCAB\<close> is the pair of its word and its count.
\<close>

type_synonym VOCAB = "string \<times> int"

definition migrate :: "hashtable \<Rightarrow> VOCAB list" where
  "migrate ht = concat (map (\<lambda>i. ht (of_nat i)) [0 ..< unat TSIZE])"

text \<open>\<^verbatim>\<open>CompareVocabTie\<close> (lines 89-94) and \<^verbatim>\<open>CompareVocab\<close> (lines 99-103).\<close>

definition CompareVocabTie :: "bool \<Rightarrow> VOCAB \<Rightarrow> VOCAB \<Rightarrow> int" where
  "CompareVocabTie sc a b =
     (let c = snd b - snd a
      in if c \<noteq> 0 then (if c > 0 then 1 else - 1) else scmp sc (fst a) (fst b))"

definition CompareVocab :: "VOCAB \<Rightarrow> VOCAB \<Rightarrow> int" where
  "CompareVocab a b =
     (let c = snd b - snd a
      in if c \<noteq> 0 then (if c > 0 then 1 else - 1) else 0)"

text \<open>
  Lines 229-248: the sort (after the sort without tie-break and the cut, when
  \<^verbatim>\<open>max_vocab\<close> is positive and below the number of words) and the output, which ends
  before the first entry below \<^verbatim>\<open>min_count\<close>.  The result is the list of the lines
  printed, each a word and its count.
\<close>

definition write_vocab :: "bool \<Rightarrow> int \<Rightarrow> int \<Rightarrow> VOCAB list \<Rightarrow> VOCAB list" where
  "write_vocab sc max_vocab min_count vocab =
     (let j = int (length vocab);
          vocab1 = (if max_vocab > 0 \<and> max_vocab < j then qsort CompareVocab vocab else vocab);
          max_vocab1 = (if max_vocab > 0 \<and> max_vocab < j then max_vocab else j);
          vocab2 = qsort (CompareVocabTie sc) (take (nat max_vocab1) vocab1)
                   @ drop (nat max_vocab1) vocab1
      in takeWhile (\<lambda>v. \<not> snd v < min_count) (take (nat max_vocab1) vocab2))"

definition get_counts :: "bool \<Rightarrow> int \<Rightarrow> int \<Rightarrow> string \<Rightarrow> unit + VOCAB list" where
  "get_counts sc max_vocab min_count stdin =
     (case count_tokens sc inithashtable stdin of
        Inl e \<Rightarrow> Inl e
      | Inr ht \<Rightarrow> Inr (write_vocab sc max_vocab min_count (migrate ht)))"

subsection \<open>The weight the specification expects, and the inputs of the scenarios\<close>

text \<open>
  The total weight of claim C1, from its words: the sum, over every line and every target
  position \<open>j\<close> of the in-vocabulary tokens of the line, of \<open>1/d\<close> for the distances
  \<open>d = 1..min j W\<close> to the context words before it, doubled in symmetric mode.  A line is
  the list of its in-vocabulary tokens.
\<close>

definition spec_line_weight :: "int \<Rightarrow> 'a list \<Rightarrow> real" where
  "spec_line_weight W line =
     (\<Sum>j \<leftarrow> [0 ..< length line]. \<Sum>d \<leftarrow> [1 .. min (int j) W]. 1 / real_of_int d)"

definition spec_total_weight :: "int \<Rightarrow> int \<Rightarrow> 'a list list \<Rightarrow> real" where
  "spec_total_weight W symm lines =
     (if symm > 0 then 2 else 1) * (\<Sum>line \<leftarrow> lines. spec_line_weight W line)"

text \<open>
  Scenario A of the specification with the array sizes that \<^verbatim>\<open>main\<close> computes from the
  initial \<^verbatim>\<open>memory_limit = 3\<close> when no option overrides them:
  \<open>max_product = 10485784\<close>, \<open>overflow_length = 28521267\<close>.
\<close>

definition scenario_A_config :: config where
  "scenario_A_config =
     \<lparr>window_size = 2, symmetric = 1, max_product = 10485784, overflow_length = 28521267,
      signed_char = True\<rparr>"

definition scenario_A_dense :: "CREC list" where
  "scenario_A_dense =
     [\<lparr>word1 = 1, word2 = 1, val = Finite 1\<rparr>, \<lparr>word1 = 1, word2 = 2, val = Finite 3\<rparr>,
      \<lparr>word1 = 1, word2 = 3, val = Finite 1\<rparr>, \<lparr>word1 = 2, word2 = 1, val = Finite 3\<rparr>,
      \<lparr>word1 = 2, word2 = 3, val = Finite (1 / 2)\<rparr>, \<lparr>word1 = 3, word2 = 1, val = Finite 1\<rparr>,
      \<lparr>word1 = 3, word2 = 2, val = Finite (1 / 2)\<rparr>]"

text \<open>
  The equations of the loops are unfolded by hand in the proofs below.
\<close>

declare lookup_loop.simps [simp del] insert_loop.simps [simp del] delete_loop.simps [simp del]
  prime_loop.simps [simp del] merge_loop.simps [simp del] pair_loop.simps [simp del]
  token_loop.simps [simp del] shuffle_loop.simps [simp del] merge_rounds.simps [simp del]
  count_tokens.simps [simp del] ilen.simps [simp del] double_add.simps [simp del]

subsection \<open>Invariants of the priority queue\<close>

text \<open>
  The queue is a binary heap in \<open>pq[0..n-1]\<close>: no entry is below its parent.  While an
  entry rises from position \<open>j\<close> (\<^verbatim>\<open>insert\<close>) or sinks from position \<open>p\<close>
  (\<^verbatim>\<open>delete\<close>) the heap order holds everywhere but at that entry, and across it.
\<close>

definition parent :: "nat \<Rightarrow> nat" where
  "parent i = (i - 1) div 2"

definition heap_ok :: "CRECID list \<Rightarrow> nat \<Rightarrow> bool" where
  "heap_ok pq n \<longleftrightarrow> (\<forall>i. 0 < i \<and> i < n \<longrightarrow> key (pq ! parent i) \<le> key (pq ! i))"

definition rising :: "CRECID list \<Rightarrow> nat \<Rightarrow> nat \<Rightarrow> bool" where
  "rising pq n j \<longleftrightarrow>
     (\<forall>i. 0 < i \<and> i < n \<and> i \<noteq> j \<longrightarrow> key (pq ! parent i) \<le> key (pq ! i)) \<and>
     (\<forall>c. 0 < j \<and> 0 < c \<and> c < n \<and> parent c = j \<longrightarrow> key (pq ! parent j) \<le> key (pq ! c))"

definition sinking :: "CRECID list \<Rightarrow> nat \<Rightarrow> nat \<Rightarrow> bool" where
  "sinking pq n p \<longleftrightarrow>
     (\<forall>i. 0 < i \<and> i < n \<and> parent i \<noteq> p \<longrightarrow> key (pq ! parent i) \<le> key (pq ! i)) \<and>
     (\<forall>c. 0 < p \<and> 0 < c \<and> c < n \<and> parent c = p \<longrightarrow> key (pq ! parent p) \<le> key (pq ! c))"

subsection \<open>Invariants of the merge\<close>

text \<open>
  A rank is a non-negative \<^verbatim>\<open>int\<close>: the difference of two ranks does not wrap around.
\<close>

definition is_rank :: "int \<Rightarrow> bool" where
  "is_rank w \<longleftrightarrow> 0 \<le> w \<and> w < 2147483648"

definition ranks :: "'a CREC_scheme \<Rightarrow> bool" where
  "ranks r \<longleftrightarrow> is_rank (word1 r) \<and> is_rank (word2 r)"

text \<open>
  The records still to be written: those in the queue and those left in the run files.
\<close>

definition queue_records :: "CRECID list \<Rightarrow> nat \<Rightarrow> CREC list list \<Rightarrow> CREC multiset" where
  "queue_records pq sz fid = image_mset crec_of (mset (take sz pq)) + sum_list (map mset fid)"

text \<open>
  \<open>summed out M\<close>: the records \<open>out\<close> are what is to be written for the records \<open>M\<close>
  taken from the queue so far.  Their keys increase strictly and are the keys of \<open>M\<close>, and
  the value of each is the sum in \<^verbatim>\<open>double\<close> of the values of the records of \<open>M\<close> with its
  key, added in some order.
\<close>

definition summed :: "CREC list \<Rightarrow> CREC multiset \<Rightarrow> bool" where
  "summed out M \<longleftrightarrow>
     sorted_wrt (<) (map key out) \<and> key ` set out = key ` set_mset M \<and>
     (\<forall>r \<in> set out. \<exists>vs. mset vs = image_mset val (filter_mset (\<lambda>x. key x = key r) M) \<and>
                               val r = double_sum vs)"

text \<open>
  Every entry of the queue holds ranks, carries the index of an open file and is not above
  any record left in that file; the files are sorted and hold ranks.  \<open>drained\<close>: a file
  with records left has an entry in the queue.
\<close>

definition merge_inv :: "CRECID list \<Rightarrow> nat \<Rightarrow> CREC list list \<Rightarrow> bool" where
  "merge_inv pq sz fid \<longleftrightarrow>
     sz \<le> length pq \<and> heap_ok pq sz \<and>
     (\<forall>e \<in> set (take sz pq). ranks e \<and> id' e < length fid \<and>
                                 (\<forall>r \<in> set (fid ! id' e). key e \<le> key r)) \<and>
     (\<forall>f \<in> set fid. sorted (map key f) \<and> (\<forall>r \<in> set f. ranks r))"

definition drained :: "CRECID list \<Rightarrow> nat \<Rightarrow> CREC list list \<Rightarrow> bool" where
  "drained pq sz fid \<longleftrightarrow>
     (\<forall>i < length fid. fid ! i \<noteq> [] \<longrightarrow> (\<exists>e \<in> set (take sz pq). id' e = i))"

subsection \<open>The order of claim C8 and the invariant of the vocabulary hash\<close>

text \<open>
  The order on words of claim C8, from its words: ascending lexicographic order of the
  bytes, each byte a number from 0 to 255; a proper prefix comes first.
\<close>

fun bytes_less :: "string \<Rightarrow> string \<Rightarrow> bool" where
  "bytes_less [] [] \<longleftrightarrow> False"
| "bytes_less [] (c2 # s2) \<longleftrightarrow> True"
| "bytes_less (c1 # s1) [] \<longleftrightarrow> False"
| "bytes_less (c1 # s1) (c2 # s2) \<longleftrightarrow>
     (of_char c1 :: nat) < of_char c2 \<or> (c1 = c2 \<and> bytes_less s1 s2)"

text \<open>
  Every word of the table is in the chain of its hash value, once, has no NUL byte and
  is made of bytes of the set \<open>B\<close> (the bytes of the input).
\<close>

definition ht_ok :: "bool \<Rightarrow> char set \<Rightarrow> hashtable \<Rightarrow> bool" where
  "ht_ok sc B ht \<longleftrightarrow>
     (\<forall>h. distinct (map fst (ht h)) \<and>
          (\<forall>e \<in> set (ht h). bitwisehash sc (fst e) TSIZE SEED = h \<and>
                               CHR 0x00 \<notin> set (fst e) \<and> set (fst e) \<subseteq> B))"

section \<open>Properties\<close>

subsection \<open>Facts about the lookup table\<close>

lemma sdiv_nonneg: "0 \<le> a \<Longrightarrow> 0 < b \<Longrightarrow> (a::int) sdiv b = a div b"
  by (simp add: signed_divide_int_def sgn_if)

lemma length_lookup_loop [simp]: "length (lookup_loop m v a l) = length l"
proof (induction m v a l rule: lookup_loop.induct)
  case (1 m v a l)
  show ?case
  proof (cases "a \<le> v")
    case True
    then show ?thesis
      using "1.IH" [OF True refl refl]
      by (subst lookup_loop.simps) (simp add: Let_def)
  next
    case False
    then show ?thesis by (subst lookup_loop.simps) simp
  qed
qed

lemma lookup_loop_below: "k < a \<Longrightarrow> 0 \<le> k \<Longrightarrow> lookup_loop m v a l ! nat k = l ! nat k"
proof (induction m v a l rule: lookup_loop.induct)
  case (1 m v a l)
  show ?case
  proof (cases "a \<le> v")
    case True
    have ne: "nat a \<noteq> nat k" using "1.prems" by auto
    show ?thesis
      using "1.IH" [OF True refl refl] "1.prems" True ne
      by (subst lookup_loop.simps) (simp add: Let_def)
  next
    case False
    then show ?thesis by (subst lookup_loop.simps) simp
  qed
qed

lemma lookup_loop_step:
  "a \<le> k \<Longrightarrow> k \<le> v \<Longrightarrow> 1 \<le> a \<Longrightarrow> length l = nat (v + 1) \<Longrightarrow>
   lookup_loop m v a l ! nat k = lookup_loop m v a l ! nat (k - 1) + min (m sdiv k) v"
proof (induction m v a l rule: lookup_loop.induct)
  case (1 m v a l)
  from "1.prems" have av: "a \<le> v" by simp
  define l' where "l' = (if m sdiv a < v then l[nat a := m sdiv a + l ! nat (a - 1)]
                          else l[nat a := l ! nat (a - 1) + v])"
  have unf: "lookup_loop m v a l = lookup_loop m v (a + 1) l'"
    using av by (subst lookup_loop.simps) (simp add: Let_def l'_def)
  have len: "length l' = nat (v + 1)" using "1.prems" by (simp add: l'_def)
  show ?case
  proof (cases "k = a")
    case True
    have "lookup_loop m v (a + 1) l' ! nat a = l' ! nat a"
      using "1.prems" by (intro lookup_loop_below) auto
    moreover have "lookup_loop m v (a + 1) l' ! nat (a - 1) = l' ! nat (a - 1)"
      using "1.prems" by (intro lookup_loop_below) auto
    moreover have "l' ! nat a = l ! nat (a - 1) + min (m sdiv a) v"
      using "1.prems" av by (auto simp: l'_def min_def)
    moreover have "l' ! nat (a - 1) = l ! nat (a - 1)"
      using "1.prems" by (auto simp: l'_def)
    ultimately show ?thesis using True unf by simp
  next
    case False
    then have "a + 1 \<le> k" using "1.prems" by simp
    then show ?thesis
      using "1.IH" [OF av refl l'_def] "1.prems" len unf by simp
  qed
qed

lemma build_lookup_0: "0 \<le> v \<Longrightarrow> build_lookup m v ! 0 = 1"
  using lookup_loop_below [of 0 1 m v "(replicate (nat (v + 1)) 0)[0 := 1]"]
  by (simp add: build_lookup_def)

lemma build_lookup_step:
  "1 \<le> k \<Longrightarrow> k \<le> v \<Longrightarrow>
   build_lookup m v ! nat k = build_lookup m v ! nat (k - 1) + min (m sdiv k) v"
  unfolding build_lookup_def by (rule lookup_loop_step) auto

lemma build_lookup_mono_step:
  assumes "0 \<le> m" "0 \<le> v" "1 \<le> k" "k \<le> v"
  shows "build_lookup m v ! nat (k - 1) \<le> build_lookup m v ! nat k"
proof -
  have "0 \<le> m sdiv k" using assms by (simp add: sdiv_nonneg pos_imp_zdiv_nonneg_iff)
  then show ?thesis using build_lookup_step [OF assms(3,4), of m] assms by (simp add: min_def)
qed

lemma build_lookup_mono:
  assumes "0 \<le> m" "0 \<le> v"
  shows "0 \<le> i \<Longrightarrow> i \<le> j \<Longrightarrow> j \<le> v \<Longrightarrow> build_lookup m v ! nat i \<le> build_lookup m v ! nat j"
proof (induction "nat (j - i)" arbitrary: j)
  case 0
  then show ?case by simp
next
  case (Suc n)
  then have "i \<le> j - 1" "n = nat (j - 1 - i)" "j - 1 \<le> v" "1 \<le> j" by auto
  with Suc have "build_lookup m v ! nat i \<le> build_lookup m v ! nat (j - 1)" by blast
  also have "\<dots> \<le> build_lookup m v ! nat j"
    using build_lookup_mono_step [OF assms \<open>1 \<le> j\<close>] Suc.prems by simp
  finally show ?case .
qed

lemma build_lookup_ge_1: "0 \<le> m \<Longrightarrow> 0 \<le> k \<Longrightarrow> k \<le> v \<Longrightarrow> 1 \<le> build_lookup m v ! nat k"
  using build_lookup_mono [of m v 0 k] build_lookup_0 [of v m] by simp

lemma row_width:
  "0 \<le> m \<Longrightarrow> 1 \<le> x \<Longrightarrow> x \<le> v \<Longrightarrow>
   build_lookup m v ! nat x - build_lookup m v ! nat (x - 1) = min (m div x) v"
  using build_lookup_step [of x v m] by (simp add: sdiv_nonneg)

lemma reserved_cell_bounds:
  assumes "0 \<le> m" and r: "reserved (build_lookup m v) v x y"
  shows "build_lookup m v ! nat (x - 1) - 1 \<le> cell (build_lookup m v) x y"
    and "cell (build_lookup m v) x y \<le> build_lookup m v ! nat x - 2"
  using r by (auto simp: reserved_def cell_def)

lemma reserved_rows_disjoint:
  assumes m: "0 \<le> m"
    and r: "reserved (build_lookup m v) v x y" and r': "reserved (build_lookup m v) v x' y'"
    and lt: "x < x'"
  shows "cell (build_lookup m v) x y < cell (build_lookup m v) x' y'"
proof -
  have v: "0 \<le> v" and x: "1 \<le> x" and x': "x' \<le> v" using r r' by (auto simp: reserved_def)
  have "cell (build_lookup m v) x y \<le> build_lookup m v ! nat x - 2"
    by (rule reserved_cell_bounds [OF m r])
  also have "\<dots> < build_lookup m v ! nat x - 1" by simp
  also have "build_lookup m v ! nat x \<le> build_lookup m v ! nat (x' - 1)"
    using build_lookup_mono [OF m v, of x "x' - 1"] x lt x' by simp
  also have "build_lookup m v ! nat (x' - 1) - 1 \<le> cell (build_lookup m v) x' y'"
    by (rule reserved_cell_bounds [OF m r'])
  finally show ?thesis by simp
qed

lemma product_below_row_width:
  assumes "1 \<le> w1" "1 \<le> w2" "w1 * w2 < (m::int)"
  shows "w2 \<le> m div w1"
proof -
  have "w2 = (w2 * w1) div w1" using assms by simp
  also have "\<dots> \<le> m div w1" using assms by (intro zdiv_mono1) (auto simp: mult.commute)
  finally show ?thesis .
qed

subsection \<open>Claim C5\<close>

text \<open>
  C5.  For vocabulary size \<open>V \<ge> 1\<close> and \<open>max_product M \<ge> 1\<close> the table that the loop of
  get\_cooccurrence builds satisfies \<open>L[0] = 1\<close> and \<open>L[a] = L[a-1] + min (M div a) V\<close> for
  \<open>a = 1..V\<close>; every pair \<open>(w1, w2)\<close> of ranks in \<open>1..V\<close> with \<open>w1 * w2 < M\<close> has a
  reserved cell whose index \<open>L[w1-1] + w2 - 2\<close> lies inside the allocated table of \<open>L[V]\<close>
  cells; and the index map is injective on the reserved cells.
\<close>

theorem dense_cell_exists_unique:
  assumes "1 \<le> V" and "1 \<le> M"
  shows "build_lookup M V ! 0 = 1 \<and>
    (\<forall>a. 1 \<le> a \<and> a \<le> V \<longrightarrow>
       build_lookup M V ! nat a = build_lookup M V ! nat (a - 1) + min (M div a) V) \<and>
    (\<forall>w1 w2. 1 \<le> w1 \<and> w1 \<le> V \<and> 1 \<le> w2 \<and> w2 \<le> V \<and> w1 * w2 < M \<longrightarrow>
       reserved (build_lookup M V) V w1 w2 \<and>
       0 \<le> cell (build_lookup M V) w1 w2 \<and>
       cell (build_lookup M V) w1 w2 < build_lookup M V ! nat V) \<and>
    (\<forall>x y x' y'. reserved (build_lookup M V) V x y \<and> reserved (build_lookup M V) V x' y' \<and>
       cell (build_lookup M V) x y = cell (build_lookup M V) x' y' \<longrightarrow> x = x' \<and> y = y')"
proof (intro conjI allI impI)
  have M: "0 \<le> M" and V: "0 \<le> V" using assms by simp_all
  show "build_lookup M V ! 0 = 1" by (rule build_lookup_0 [OF V])
  {
    fix a assume "1 \<le> a \<and> a \<le> V"
    then show "build_lookup M V ! nat a = build_lookup M V ! nat (a - 1) + min (M div a) V"
      using build_lookup_step [of a V M] M by (simp add: sdiv_nonneg)
  }
  {
    fix w1 w2
    assume h: "1 \<le> w1 \<and> w1 \<le> V \<and> 1 \<le> w2 \<and> w2 \<le> V \<and> w1 * w2 < M"
    then have "w2 \<le> M div w1" by (intro product_below_row_width) auto
    then have "w2 \<le> build_lookup M V ! nat w1 - build_lookup M V ! nat (w1 - 1)"
      using h row_width [OF M, of w1 V] by simp
    then show r: "reserved (build_lookup M V) V w1 w2"
      using h by (simp add: reserved_def)
    have "1 \<le> build_lookup M V ! nat (w1 - 1)"
      using h by (intro build_lookup_ge_1 [OF M]) auto
    then show "0 \<le> cell (build_lookup M V) w1 w2"
      using reserved_cell_bounds(1) [OF M r] by simp
    have "build_lookup M V ! nat w1 \<le> build_lookup M V ! nat V"
      using h by (intro build_lookup_mono [OF M V]) auto
    then show "cell (build_lookup M V) w1 w2 < build_lookup M V ! nat V"
      using reserved_cell_bounds(2) [OF M r] by simp
  }
  {
    fix x y x' y'
    assume h: "reserved (build_lookup M V) V x y \<and> reserved (build_lookup M V) V x' y' \<and>
       cell (build_lookup M V) x y = cell (build_lookup M V) x' y'"
    have "\<not> x < x'" using reserved_rows_disjoint [OF M, of V x y x' y'] h by auto
    moreover have "\<not> x' < x" using reserved_rows_disjoint [OF M, of V x' y' x y] h by auto
    ultimately show "x = x'" by simp
    with h show "y = y'" by (simp add: cell_def)
  }
qed

lemma build_lookup_10_3: "build_lookup 10 3 = [1, 4, 7, 10]"
  by code_simp

theorem dense_cell_exists_unique_witness:
  "reserved (build_lookup 10 3) 3 2 3 \<and> cell (build_lookup 10 3) 2 3 = 5 \<and>
   cell (build_lookup 10 3) 2 3 < build_lookup 10 3 ! nat 3 \<and>
   (cell (build_lookup 10 3) 2 3 = cell (build_lookup 10 3) 3 1) = ((2::int) = 3 \<and> (3::int) = 1)"
proof -
  have a: "(1::int) \<le> 3" and b: "(1::int) \<le> 10" by simp_all
  note t = dense_cell_exists_unique [OF a b]
  have r: "reserved (build_lookup 10 3) 3 2 3 \<and> 0 \<le> cell (build_lookup 10 3) 2 3 \<and>
       cell (build_lookup 10 3) 2 3 < build_lookup 10 3 ! nat 3"
    using t [THEN conjunct2, THEN conjunct2, THEN conjunct1, rule_format, of 2 3] by simp
  have r': "reserved (build_lookup 10 3) 3 3 1"
    using t [THEN conjunct2, THEN conjunct2, THEN conjunct1, rule_format, of 3 1] by simp
  have "cell (build_lookup 10 3) 2 3 = cell (build_lookup 10 3) 3 1 \<Longrightarrow> (2::int) = 3 \<and> (3::int) = 1"
    using t [THEN conjunct2, THEN conjunct2, THEN conjunct2, rule_format, of 2 3 3 1] r r' by blast
  moreover have "cell (build_lookup 10 3) 2 3 = 5"
    by (simp add: build_lookup_10_3 cell_def)
  ultimately show ?thesis using r by auto
qed

subsection \<open>The priority queue is a heap\<close>

lemma int32_id: "- 2147483648 \<le> x \<Longrightarrow> x < 2147483648 \<Longrightarrow> int32 x = x"
  by (simp add: int32_def)

lemma int32_ranks:
  assumes "ranks a" "ranks b"
  shows "int32 (word1 a - word1 b) = word1 a - word1 b"
    and "int32 (word2 a - word2 b) = word2 a - word2 b"
  using assms by (simp_all add: ranks_def is_rank_def int32_id)

lemma compare_crecid_pos: "ranks a \<Longrightarrow> ranks b \<Longrightarrow> 0 < compare_crecid a b \<longleftrightarrow> key b < key a"
  by (auto simp: compare_crecid_def key_def Let_def int32_ranks)

lemma compare_crecid_neg: "ranks a \<Longrightarrow> ranks b \<Longrightarrow> compare_crecid a b < 0 \<longleftrightarrow> key a < key b"
  by (auto simp: compare_crecid_def key_def Let_def int32_ranks)

lemma nth_in_take: "i < n \<Longrightarrow> n \<le> length xs \<Longrightarrow> xs ! i \<in> set (take n xs)"
  by (auto simp: in_set_conv_nth intro!: exI [of _ i])

lemma set_take_mset: "mset (take n xs) = mset (take n ys) \<Longrightarrow> set (take n xs) = set (take n ys)"
  by (metis set_mset_mset)

lemma parent_child: "0 < i \<Longrightarrow> parent i = p \<longleftrightarrow> i = 2 * p + 1 \<or> i = 2 * p + 2"
  unfolding parent_def by linarith

lemma parent_less: "0 < i \<Longrightarrow> parent i < i"
  unfolding parent_def by linarith

lemma length_swap_entry [simp]: "length (swap_entry pq i j) = length pq"
  by (simp add: swap_entry_def Let_def)

lemma nth_swap_entry:
  "i < length pq \<Longrightarrow> j < length pq \<Longrightarrow>
   swap_entry pq i j ! k = (if k = j then pq ! i else if k = i then pq ! j else pq ! k)"
  by (simp add: swap_entry_def Let_def nth_list_update)

lemma mset_take_swap_entry:
  assumes "i < n" "j < n" "n \<le> length pq"
  shows "mset (take n (swap_entry pq i j)) = mset (take n pq)"
proof -
  have "take n (swap_entry pq i j) = (take n pq)[i := take n pq ! j, j := take n pq ! i]"
    using assms by (simp add: swap_entry_def Let_def take_update_swap)
  moreover have "mset ((take n pq)[i := take n pq ! j, j := take n pq ! i]) = mset (take n pq)"
    using assms by (intro mset_swap) auto
  ultimately show ?thesis by (simp only:)
qed

lemma rising_swap:
  assumes r: "rising pq n j" and j: "j < n" and n: "n \<le> length pq"
    and lt: "key (pq ! j) < key (pq ! parent j)"
  shows "rising (swap_entry pq (parent j) j) n (parent j)"
proof -
  have j0: "0 < j" using lt by (cases j) (auto simp: parent_def)
  let ?p = "parent j"
  have pj: "?p < j" using parent_less [OF j0] .
  have nth: "swap_entry pq ?p j ! k = (if k = j then pq ! ?p else if k = ?p then pq ! j else pq ! k)" for k
    using pj j n by (intro nth_swap_entry) auto
  from r have r1: "\<And>i. 0 < i \<Longrightarrow> i < n \<Longrightarrow> i \<noteq> j \<Longrightarrow> key (pq ! parent i) \<le> key (pq ! i)"
    and r2: "\<And>c. 0 < c \<Longrightarrow> c < n \<Longrightarrow> parent c = j \<Longrightarrow> key (pq ! ?p) \<le> key (pq ! c)"
    using j0 by (auto simp: rising_def)
  show ?thesis
    unfolding rising_def
  proof (intro conjI allI impI)
    fix i assume i: "0 < i \<and> i < n \<and> i \<noteq> ?p"
    show "key (swap_entry pq ?p j ! parent i) \<le> key (swap_entry pq ?p j ! i)"
    proof (cases "i = j")
      case True
      then show ?thesis using lt pj by (simp add: nth)
    next
      case ij: False
      have pi: "parent i < i" using i parent_less by simp
      show ?thesis
      proof (cases "parent i = j")
        case True
        then show ?thesis using r2 [of i] i ij pj by (simp add: nth)
      next
        case pij: False
        show ?thesis
        proof (cases "parent i = ?p")
          case True
          have "key (pq ! j) \<le> key (pq ! ?p)" using lt by simp
          also have "\<dots> \<le> key (pq ! i)" using r1 [of i] i ij True by simp
          finally show ?thesis using True i ij pij by (simp add: nth)
        next
          case False
          then show ?thesis using r1 [of i] i ij pij by (simp add: nth)
        qed
      qed
    qed
  next
    fix c assume c: "0 < ?p \<and> 0 < c \<and> c < n \<and> parent c = ?p"
    have pp: "parent ?p < ?p" using c parent_less by simp
    have a: "key (pq ! parent ?p) \<le> key (pq ! ?p)" using r1 [of ?p] c pj j by simp
    have cp: "?p < c" using c parent_less [of c] by simp
    show "key (swap_entry pq ?p j ! parent ?p) \<le> key (swap_entry pq ?p j ! c)"
    proof (cases "c = j")
      case True
      then show ?thesis using a pp pj by (simp add: nth)
    next
      case False
      have "key (pq ! ?p) \<le> key (pq ! c)" using r1 [of c] c False by simp
      with a have "key (pq ! parent ?p) \<le> key (pq ! c)" by simp
      then show ?thesis using False pp pj cp by (simp add: nth)
    qed
  qed
qed

lemma rising_done:
  assumes r: "rising pq n j" and le: "key (pq ! parent j) \<le> key (pq ! j)"
  shows "heap_ok pq n"
  using r le unfolding rising_def heap_ok_def by metis

lemma insert_loop_props:
  "rising pq n j \<Longrightarrow> j < n \<Longrightarrow> n \<le> length pq \<Longrightarrow> \<forall>e \<in> set (take n pq). ranks e \<Longrightarrow>
   heap_ok (insert_loop pq j) n \<and> length (insert_loop pq j) = length pq \<and>
   mset (take n (insert_loop pq j)) = mset (take n pq)"
proof (induction pq j rule: insert_loop.induct)
  case (1 pq j)
  have pn: "parent j < n" using "1.prems"(2) by (simp add: parent_def)
  have rj: "ranks (pq ! j)" and rp: "ranks (pq ! parent j)"
    using "1.prems"(2,3,4) pn nth_in_take [of _ n pq] by blast+
  show ?case
  proof (cases "0 < compare_crecid (pq ! parent j) (pq ! j)")
    case True
    then have lt: "key (pq ! j) < key (pq ! parent j)" by (simp add: compare_crecid_pos [OF rp rj])
    then have j0: "0 < j" by (cases j) (auto simp: parent_def)
    have pj: "parent j < j" using parent_less [OF j0] .
    have r: "rising (swap_entry pq (parent j) j) n (parent j)"
      using rising_swap [OF "1.prems"(1,2,3) lt] .
    have rk: "\<forall>e \<in> set (take n (swap_entry pq (parent j) j)). ranks e"
      using set_take_mset [OF mset_take_swap_entry [of "parent j" n j pq]] pj "1.prems" by simp
    have ih: "heap_ok (insert_loop (swap_entry pq (parent j) j) (parent j)) n \<and>
        length (insert_loop (swap_entry pq (parent j) j) (parent j)) = length (swap_entry pq (parent j) j) \<and>
        mset (take n (insert_loop (swap_entry pq (parent j) j) (parent j))) =
          mset (take n (swap_entry pq (parent j) j))"
      using "1.IH" [of "parent j"] True r rk pj "1.prems" by (simp add: parent_def)
    have unf: "insert_loop pq j = insert_loop (swap_entry pq (parent j) j) (parent j)"
      using True by (subst insert_loop.simps) (simp add: parent_def Let_def)
    show ?thesis
      using ih unf mset_take_swap_entry [of "parent j" n j pq] pj "1.prems" by simp
  next
    case False
    then have le: "key (pq ! parent j) \<le> key (pq ! j)"
      by (simp add: compare_crecid_pos [OF rp rj] not_less)
    have unf: "insert_loop pq j = pq"
      using False by (subst insert_loop.simps) (simp add: parent_def Let_def)
    show ?thesis using rising_done [OF "1.prems"(1) le] unf by simp
  qed
qed

lemma insert_pq_props:
  assumes h: "heap_ok pq n" and n: "n < length pq"
    and rk: "\<forall>e \<in> set (take n pq). ranks e" and rn: "ranks new"
  shows "heap_ok (insert_pq pq new (Suc n)) (Suc n)"
    and "length (insert_pq pq new (Suc n)) = length pq"
    and "mset (take (Suc n) (insert_pq pq new (Suc n))) = add_mset new (mset (take n pq))"
proof -
  have r: "rising (pq[n := new]) (Suc n) n"
    unfolding rising_def
  proof (intro conjI allI impI)
    fix i assume i: "0 < i \<and> i < Suc n \<and> i \<noteq> n"
    then have "parent i < n" using parent_less [of i] by simp
    then show "key (pq[n := new] ! parent i) \<le> key (pq[n := new] ! i)"
      using h i by (simp add: heap_ok_def)
  next
    fix c assume c: "0 < n \<and> 0 < c \<and> c < Suc n \<and> parent c = n"
    then have "n < c" using parent_less [of c] by simp
    with c show "key (pq[n := new] ! parent n) \<le> key (pq[n := new] ! c)" by simp
  qed
  have t: "take (Suc n) (pq[n := new]) = take n pq @ [new]"
    using n by (simp add: take_Suc_conv_app_nth)
  have rk1: "\<forall>e \<in> set (take (Suc n) (pq[n := new])). ranks e"
    unfolding t using rk rn by simp
  have p: "heap_ok (insert_loop (pq[n := new]) n) (Suc n) \<and>
      length (insert_loop (pq[n := new]) n) = length (pq[n := new]) \<and>
      mset (take (Suc n) (insert_loop (pq[n := new]) n)) = mset (take (Suc n) (pq[n := new]))"
    using insert_loop_props [OF r _ _ rk1] n by simp
  show "heap_ok (insert_pq pq new (Suc n)) (Suc n)"
    and "length (insert_pq pq new (Suc n)) = length pq"
    and "mset (take (Suc n) (insert_pq pq new (Suc n))) = add_mset new (mset (take n pq))"
    using p t by (simp_all add: insert_pq_def)
qed

lemma sinking_swap:
  assumes s: "sinking pq n p" and c: "c < n" "0 < c" "parent c = p" and n: "n \<le> length pq"
    and lt: "key (pq ! c) < key (pq ! p)"
    and least: "\<And>d. 0 < d \<Longrightarrow> d < n \<Longrightarrow> parent d = p \<Longrightarrow> key (pq ! c) \<le> key (pq ! d)"
  shows "sinking (swap_entry pq p c) n c"
proof -
  have pc: "p < c" using c parent_less [of c] by simp
  have nth: "swap_entry pq p c ! k = (if k = c then pq ! p else if k = p then pq ! c else pq ! k)" for k
    using pc c n by (intro nth_swap_entry) auto
  from s have s1: "\<And>i. 0 < i \<Longrightarrow> i < n \<Longrightarrow> parent i \<noteq> p \<Longrightarrow> key (pq ! parent i) \<le> key (pq ! i)"
    and s2: "\<And>d. 0 < p \<Longrightarrow> 0 < d \<Longrightarrow> d < n \<Longrightarrow> parent d = p \<Longrightarrow> key (pq ! parent p) \<le> key (pq ! d)"
    by (auto simp: sinking_def)
  show ?thesis
    unfolding sinking_def
  proof (intro conjI allI impI)
    fix i assume i: "0 < i \<and> i < n \<and> parent i \<noteq> c"
    have pi: "parent i < i" using i parent_less by simp
    show "key (swap_entry pq p c ! parent i) \<le> key (swap_entry pq p c ! i)"
    proof (cases "parent i = p")
      case True
      show ?thesis
      proof (cases "i = c")
        case True
        then show ?thesis using lt c pc by (simp add: nth)
      next
        case False
        then show ?thesis using least [of i] i True pc pi by (simp add: nth)
      qed
    next
      case pip: False
      then have ic: "i \<noteq> c" using c by auto
      show ?thesis
      proof (cases "i = p")
        case True
        then have "key (pq ! parent p) \<le> key (pq ! c)" using s2 [of c] c i by simp
        then show ?thesis using True pi pc i by (simp add: nth)
      next
        case False
        then show ?thesis using s1 [of i] i pip ic by (simp add: nth)
      qed
    qed
  next
    fix d assume d: "0 < c \<and> 0 < d \<and> d < n \<and> parent d = c"
    then have cd: "c < d" using parent_less [of d] by simp
    have "parent d \<noteq> p" using d pc by simp
    then have "key (pq ! c) \<le> key (pq ! d)" using s1 [of d] d by simp
    then show "key (swap_entry pq p c ! parent c) \<le> key (swap_entry pq p c ! d)"
      using c cd pc by (simp add: nth)
  qed
qed

lemma sinking_done:
  assumes s: "sinking pq n p"
    and le: "\<And>d. 0 < d \<Longrightarrow> d < n \<Longrightarrow> parent d = p \<Longrightarrow> key (pq ! p) \<le> key (pq ! d)"
  shows "heap_ok pq n"
  unfolding heap_ok_def
proof (intro allI impI)
  fix i assume i: "0 < i \<and> i < n"
  show "key (pq ! parent i) \<le> key (pq ! i)"
  proof (cases "parent i = p")
    case True
    then show ?thesis using le [of i] i by simp
  next
    case False
    then show ?thesis using s i by (simp add: sinking_def)
  qed
qed

lemma delete_loop_props:
  "sinking pq n p \<Longrightarrow> n \<le> length pq \<Longrightarrow> p < n \<or> n = 0 \<Longrightarrow> \<forall>e \<in> set (take n pq). ranks e \<Longrightarrow>
   heap_ok (delete_loop pq (Suc n) p) n \<and> length (delete_loop pq (Suc n) p) = length pq \<and>
   mset (take n (delete_loop pq (Suc n) p)) = mset (take n pq)"
proof (induction pq "Suc n" p rule: delete_loop.induct)
  case (1 pq p)
  let ?j = "2 * p + 1"
  have ch: "\<And>d. 0 < d \<Longrightarrow> parent d = p \<longleftrightarrow> d = ?j \<or> d = ?j + 1"
    using parent_child [of _ p] by auto
  have rk: "ranks (pq ! i)" if "i < n" for i
    using that "1.prems"(2,4) nth_in_take [of i n pq] by blast
  have rks: "\<forall>e \<in> set (take n (swap_entry pq p c)). ranks e" if "p < n" "c < n" for c
    using set_take_mset [OF mset_take_swap_entry [of p n c pq]] that "1.prems"(2,4) by simp
  show ?case
  proof (cases "?j < n")
    case False
    then have unf: "delete_loop pq (Suc n) p = pq"
      by (subst delete_loop.simps) (simp add: Let_def)
    have "heap_ok pq n"
    proof (rule sinking_done [OF "1.prems"(1)])
      fix d assume "0 < d" "d < n" "parent d = p"
      then show "key (pq ! p) \<le> key (pq ! d)" using ch [of d] False by auto
    qed
    then show ?thesis using unf by simp
  next
    case jn: True
    then have pn: "p < n" by simp
    show ?thesis
    proof (cases "?j + 1 = n")
      case last: True
      show ?thesis
      proof (cases "0 < compare_crecid (pq ! p) (pq ! ?j)")
        case True
        then have lt: "key (pq ! ?j) < key (pq ! p)"
          using compare_crecid_pos [OF rk [OF pn] rk [OF jn]] by simp
        have unf: "delete_loop pq (Suc n) p = swap_entry pq p ?j"
          using jn last True by (subst delete_loop.simps) (simp add: Let_def)
        have s: "sinking (swap_entry pq p ?j) n ?j"
        proof (rule sinking_swap [OF "1.prems"(1) jn _ _ "1.prems"(2) lt])
          show "0 < ?j" by simp
          show "parent ?j = p" by (simp add: parent_def)
          fix d assume "0 < d" "d < n" "parent d = p"
          then show "key (pq ! ?j) \<le> key (pq ! d)" using ch [of d] last by auto
        qed
        have "heap_ok (swap_entry pq p ?j) n"
        proof (rule sinking_done [OF s])
          fix d assume "0 < d" "d < n" "parent d = ?j"
          then show "key (swap_entry pq p ?j ! ?j) \<le> key (swap_entry pq p ?j ! d)"
            using parent_child [of d ?j] last by auto
        qed
        then show ?thesis
          using unf mset_take_swap_entry [of p n ?j pq] jn "1.prems" by simp
      next
        case False
        then have le: "key (pq ! p) \<le> key (pq ! ?j)"
          using compare_crecid_pos [OF rk [OF pn] rk [OF jn]] by (simp add: not_less)
        have unf: "delete_loop pq (Suc n) p = pq"
          using jn last False by (subst delete_loop.simps) (simp add: Let_def)
        have "heap_ok pq n"
        proof (rule sinking_done [OF "1.prems"(1)])
          fix d assume "0 < d" "d < n" "parent d = p"
          then show "key (pq ! p) \<le> key (pq ! d)" using ch [of d] last le by auto
        qed
        then show ?thesis using unf by simp
      qed
    next
      case both: False
      then have j1: "?j + 1 < n" using jn by simp
      define c where "c = (if compare_crecid (pq ! ?j) (pq ! (?j + 1)) < 0 then ?j else ?j + 1)"
      have c: "c < n" "0 < c" "parent c = p" using j1 by (auto simp: c_def parent_def)
      have least: "key (pq ! c) \<le> key (pq ! d)" if "0 < d" "d < n" "parent d = p" for d
        using ch [of d] that compare_crecid_neg [OF rk [OF jn] rk [OF j1]]
        by (auto simp: c_def not_less)
      show ?thesis
      proof (cases "0 < compare_crecid (pq ! p) (pq ! c)")
        case True
        then have lt: "key (pq ! c) < key (pq ! p)"
          using compare_crecid_pos [OF rk [OF pn] rk [OF c(1)]] by simp
        have unf: "delete_loop pq (Suc n) p = delete_loop (swap_entry pq p c) (Suc n) c"
          using jn both True by (subst delete_loop.simps) (auto simp: Let_def c_def)
        have s: "sinking (swap_entry pq p c) n c"
          using sinking_swap [OF "1.prems"(1) c "1.prems"(2) lt least] .
        have ih: "heap_ok (delete_loop (swap_entry pq p c) (Suc n) c) n \<and>
            length (delete_loop (swap_entry pq p c) (Suc n) c) = length (swap_entry pq p c) \<and>
            mset (take n (delete_loop (swap_entry pq p c) (Suc n) c)) = mset (take n (swap_entry pq p c))"
        proof (cases "compare_crecid (pq ! ?j) (pq ! (?j + 1)) < 0")
          case l: True
          then have cj: "c = ?j" by (simp add: c_def)
          show ?thesis
            using "1.hyps"(1) [OF refl _ _ l] True jn both s c "1.prems"(2) rks [OF pn c(1)]
            unfolding cj by simp
        next
          case r: False
          then have cj: "c = ?j + 1" by (simp add: c_def)
          show ?thesis
            using "1.hyps"(2) [OF refl _ _ r] True jn both s c "1.prems"(2) rks [OF pn c(1)]
            unfolding cj by simp
        qed
        have pc: "p < c" using c parent_less [of c] by simp
        show ?thesis
          using ih unf mset_take_swap_entry [of p n c pq] pc c "1.prems" by simp
      next
        case False
        then have le: "key (pq ! p) \<le> key (pq ! c)"
          using compare_crecid_pos [OF rk [OF pn] rk [OF c(1)]] by (simp add: not_less)
        have unf: "delete_loop pq (Suc n) p = pq"
          using jn both False by (subst delete_loop.simps) (auto simp: Let_def c_def)
        have "heap_ok pq n"
        proof (rule sinking_done [OF "1.prems"(1)])
          fix d assume "0 < d" "d < n" "parent d = p"
          then show "key (pq ! p) \<le> key (pq ! d)" using least [of d] le by simp
        qed
        then show ?thesis using unf by simp
      qed
    qed
  qed
qed

lemma delete_pq_props:
  assumes h: "heap_ok pq (Suc n)" and n: "Suc n \<le> length pq"
    and rk: "\<forall>e \<in> set (take (Suc n) pq). ranks e"
  shows "heap_ok (delete_pq pq (Suc n)) n"
    and "length (delete_pq pq (Suc n)) = length pq"
    and "mset (take n (delete_pq pq (Suc n))) = mset (take (Suc n) pq) - {#pq ! 0#}"
proof -
  let ?pq1 = "pq[0 := pq ! n]"
  have s: "sinking ?pq1 n 0"
    unfolding sinking_def
  proof (intro conjI allI impI)
    fix i assume i: "0 < i \<and> i < n \<and> parent i \<noteq> 0"
    then show "key (?pq1 ! parent i) \<le> key (?pq1 ! i)"
      using h by (simp add: heap_ok_def)
  next
    fix c assume "(0::nat) < 0 \<and> 0 < c \<and> c < n \<and> parent c = 0"
    then show "key (?pq1 ! parent 0) \<le> key (?pq1 ! c)" by simp
  qed
  have rk1: "\<forall>e \<in> set (take n ?pq1). ranks e"
  proof
    fix e assume "e \<in> set (take n ?pq1)"
    then obtain i where i: "i < n" "e = ?pq1 ! i" using n by (auto simp: in_set_conv_nth)
    moreover have "0 < length pq" using n by (cases pq) auto
    ultimately have "e = pq ! n \<or> e = pq ! i" by (cases "i = 0") auto
    then show "ranks e" using rk i(1) n nth_in_take [of _ "Suc n" pq] by auto
  qed
  have p: "heap_ok (delete_loop ?pq1 (Suc n) 0) n \<and>
      length (delete_loop ?pq1 (Suc n) 0) = length ?pq1 \<and>
      mset (take n (delete_loop ?pq1 (Suc n) 0)) = mset (take n ?pq1)"
    using delete_loop_props [OF s _ _ rk1] n by auto
  have m: "mset (take n ?pq1) = mset (take (Suc n) pq) - {#pq ! 0#}"
  proof (cases n)
    case 0
    then show ?thesis using n by (cases pq) auto
  next
    case (Suc m)
    have "take n ?pq1 = (take n pq)[0 := pq ! n]" using Suc by (simp add: take_update_swap)
    then have "mset (take n ?pq1) = add_mset (pq ! n) (mset (take n pq) - {#take n pq ! 0#})"
      using n Suc by (simp add: mset_update)
    moreover have "take n pq ! 0 = pq ! 0" using Suc by simp
    moreover have "pq ! 0 \<in># mset (take n pq)"
      using n Suc by (cases pq) auto
    moreover have "mset (take (Suc n) pq) = add_mset (pq ! n) (mset (take n pq))"
      using n by (simp add: take_Suc_conv_app_nth)
    ultimately show ?thesis by simp
  qed
  show "heap_ok (delete_pq pq (Suc n)) n"
    and "length (delete_pq pq (Suc n)) = length pq"
    and "mset (take n (delete_pq pq (Suc n))) = mset (take (Suc n) pq) - {#pq ! 0#}"
    using p m by (simp_all add: delete_pq_def)
qed

lemma heap_min: "heap_ok pq n \<Longrightarrow> i < n \<Longrightarrow> key (pq ! 0) \<le> key (pq ! i)"
proof (induction i rule: less_induct)
  case (less i)
  show ?case
  proof (cases "i = 0")
    case True
    then show ?thesis by simp
  next
    case False
    then have p: "parent i < i" using parent_less by simp
    have "key (pq ! 0) \<le> key (pq ! parent i)" using less.IH [OF p] less.prems p by simp
    also have "\<dots> \<le> key (pq ! i)" using less.prems False by (simp add: heap_ok_def)
    finally show ?thesis .
  qed
qed

lemma heap_min_set: "heap_ok pq n \<Longrightarrow> n \<le> length pq \<Longrightarrow> e \<in> set (take n pq) \<Longrightarrow> key (pq ! 0) \<le> key e"
  using heap_min [of pq n] by (auto simp: in_set_conv_nth)

lemma sum_list_mset_update:
  "i < length fid \<Longrightarrow> fid ! i = r # rs \<Longrightarrow>
   add_mset r (sum_list (map mset (fid[i := rs]))) = sum_list (map mset fid)"
proof (induction fid arbitrary: i)
  case Nil
  then show ?case by simp
next
  case (Cons f fid)
  then show ?case by (cases i) auto
qed

lemma key_crec_of [simp]: "key (crec_of e) = key e"
  by (simp add: key_def crec_of_def)

lemma val_crec_of [simp]: "val (crec_of e) = val e"
  by (simp add: crec_of_def)

lemma crec_of_read [simp]:
  "crec_of (new\<lparr>word1 := word1 r, word2 := word2 r, val := val r, id' := i\<rparr>) = r"
  by (simp add: crec_of_def)

lemma key_read [simp]:
  "key (new\<lparr>word1 := word1 r, word2 := word2 r, val := val r, id' := i\<rparr>) = key r"
  by (simp add: key_def)

lemma image_mset_remove1:
  assumes "x \<in># M"
  shows "add_mset (f x) (image_mset f (M - {#x#})) = image_mset f M"
proof -
  have "image_mset f M = image_mset f (add_mset x (M - {#x#}))"
    using assms by simp
  then show ?thesis by simp
qed

subsection \<open>The merge\<close>

lemma pop_refill_props:
  assumes inv: "merge_inv pq sz fid" and sz: "0 < sz"
    and pr: "pop_refill (pq, sz, new, fid) = (pq', sz', new', fid')"
  shows "merge_inv pq' sz' fid' \<and> (\<forall>e \<in> set (take sz' pq'). key (pq ! 0) \<le> key e) \<and>
      add_mset (crec_of (pq ! 0)) (queue_records pq' sz' fid') = queue_records pq sz fid \<and>
      (drained pq sz fid \<longrightarrow> drained pq' sz' fid') \<and> length fid' = length fid"
proof -
  obtain n where n: "sz = Suc n" using sz by (cases sz) auto
  let ?i = "id' (pq ! 0)"
  let ?pq1 = "delete_pq pq sz"
  from inv have len: "Suc n \<le> length pq" and h: "heap_ok pq (Suc n)"
    and ent: "\<And>e. e \<in> set (take sz pq) \<Longrightarrow> id' e < length fid \<and> (\<forall>r \<in> set (fid ! id' e). key e \<le> key r)"
    and rke: "\<And>e. e \<in> set (take sz pq) \<Longrightarrow> ranks e"
    and srt: "\<And>f. f \<in> set fid \<Longrightarrow> sorted (map key f)"
    and rkf: "\<And>f r. f \<in> set fid \<Longrightarrow> r \<in> set f \<Longrightarrow> ranks r"
    by (auto simp: merge_inv_def n)
  have rk0: "\<forall>e \<in> set (take (Suc n) pq). ranks e" using rke by (simp add: n)
  have top: "pq ! 0 \<in> set (take sz pq)" using len n by (cases pq) auto
  have topm: "pq ! 0 \<in># mset (take sz pq)" using top by simp
  have i: "?i < length fid" and ile: "\<And>r. r \<in> set (fid ! ?i) \<Longrightarrow> key (pq ! 0) \<le> key r"
    using ent [OF top] by auto
  have h1: "heap_ok ?pq1 n" and l1: "length ?pq1 = length pq"
    and m1: "mset (take n ?pq1) = mset (take sz pq) - {#pq ! 0#}"
    using delete_pq_props [OF h len rk0] by (simp_all add: n)
  have sub: "e \<in> set (take sz pq)" if "e \<in> set (take n ?pq1)" for e
  proof -
    from that have "e \<in># mset (take n ?pq1)" by simp
    then have "e \<in># mset (take sz pq)" unfolding m1 by (rule in_diffD)
    then show ?thesis by simp
  qed
  have ge: "key (pq ! 0) \<le> key e" if "e \<in> set (take n ?pq1)" for e
    using heap_min_set [OF h len] sub [OF that] by (simp add: n)
  have rk1: "\<forall>e \<in> set (take n ?pq1). ranks e" using sub rke by blast
  have other: "\<exists>e' \<in> set (take n ?pq1). id' e' = j" if "e \<in> set (take sz pq)" "id' e = j" "j \<noteq> ?i" for e j
  proof -
    from that have "e \<noteq> pq ! 0" by auto
    with that have "e \<in># mset (take sz pq) - {#pq ! 0#}" by (simp add: in_diff_count)
    then have "e \<in> set (take n ?pq1)" using m1 by (metis set_mset_mset)
    with that show ?thesis by auto
  qed
  show ?thesis
  proof (cases "fid ! ?i")
    case Nil
    then have res: "pq' = ?pq1" "sz' = n" "fid' = fid"
      using pr i by (auto simp: pop_refill_def fread_crec_def Let_def n)
    have a: "merge_inv pq' sz' fid'"
      unfolding res merge_inv_def using h1 l1 len ent sub srt rk1 rkf by auto
    have b: "\<forall>e \<in> set (take sz' pq'). key (pq ! 0) \<le> key e"
      unfolding res using ge by simp
    have c: "add_mset (crec_of (pq ! 0)) (queue_records pq' sz' fid') = queue_records pq sz fid"
      unfolding res queue_records_def m1 using image_mset_remove1 [OF topm, of crec_of]
      by simp
    have d: "drained pq' sz' fid'" if dr: "drained pq sz fid"
      unfolding res drained_def
    proof (intro allI impI)
      fix j assume j: "j < length fid" "fid ! j \<noteq> []"
      then have "j \<noteq> ?i" using Nil by auto
      moreover obtain e where "e \<in> set (take sz pq)" "id' e = j" using dr j by (auto simp: drained_def)
      ultimately show "\<exists>e \<in> set (take n ?pq1). id' e = j" using other by blast
    qed
    show ?thesis using a b c d res by simp
  next
    case (Cons r rs)
    define new2 where "new2 = new\<lparr>word1 := word1 r, word2 := word2 r, val := val r, id' := ?i\<rparr>"
    have res: "pq' = insert_pq ?pq1 new2 (Suc n)" "sz' = Suc n" "fid' = fid[?i := rs]"
      using pr i Cons by (auto simp: pop_refill_def fread_crec_def Let_def n new2_def)
    have nl: "n < length ?pq1" using l1 len by simp
    have "fid ! ?i \<in> set fid" using i by simp
    then have "ranks r" using rkf [of "fid ! ?i" r] Cons by simp
    then have rn2: "ranks new2" by (simp add: new2_def ranks_def)
    have h2: "heap_ok pq' (Suc n)" and l2: "length pq' = length pq"
      and m2: "mset (take (Suc n) pq') = add_mset new2 (mset (take n ?pq1))"
      using insert_pq_props [OF h1 nl rk1 rn2] l1 by (simp_all add: res)
    have mem: "e = new2 \<or> e \<in> set (take n ?pq1)" if "e \<in> set (take (Suc n) pq')" for e
    proof -
      from that have "e \<in># mset (take (Suc n) pq')" by simp
      then show ?thesis unfolding m2 by auto
    qed
    have new2_in: "new2 \<in> set (take (Suc n) pq')"
    proof -
      have "new2 \<in># mset (take (Suc n) pq')" unfolding m2 by simp
      then show ?thesis by simp
    qed
    have old_in: "e \<in> set (take (Suc n) pq')" if "e \<in> set (take n ?pq1)" for e
    proof -
      from that have "e \<in># mset (take (Suc n) pq')" unfolding m2 by simp
      then show ?thesis by simp
    qed
    have srt_i: "sorted (map key (r # rs))" using srt [of "fid ! ?i"] i Cons by (metis nth_mem)
    have a: "merge_inv pq' sz' fid'"
      unfolding merge_inv_def
    proof (intro conjI ballI)
      show "sz' \<le> length pq'" using l2 len res by simp
      show "heap_ok pq' sz'" using h2 res by simp
    next
      fix e assume "e \<in> set (take sz' pq')"
      then have "e = new2 \<or> e \<in> set (take n ?pq1)" using mem res by auto
      then show "ranks e" using rn2 rk1 by blast
    next
      fix e assume "e \<in> set (take sz' pq')"
      then consider "e = new2" | "e \<in> set (take n ?pq1)" using mem res by auto
      then show "id' e < length fid'"
      proof cases
        case 1
        then show ?thesis using i by (simp add: res new2_def)
      next
        case 2
        then show ?thesis using ent [OF sub] by (simp add: res)
      qed
    next
      fix e x assume e: "e \<in> set (take sz' pq')" and x: "x \<in> set (fid' ! id' e)"
      from e consider "e = new2" | "e \<in> set (take n ?pq1)" using mem res by auto
      then show "key e \<le> key x"
      proof cases
        case 1
        then have "x \<in> set rs" using x i by (simp add: res new2_def)
        then show ?thesis using srt_i 1 by (auto simp: new2_def)
      next
        case 2
        have "x \<in> set (fid ! id' e)"
          using x Cons ent [OF sub [OF 2]] by (cases "id' e = ?i") (auto simp: res)
        then show ?thesis using ent [OF sub [OF 2]] by simp
      qed
    next
      fix f assume "f \<in> set fid'"
      then have "f = rs \<or> f \<in> set fid" unfolding res using set_update_subset_insert by fastforce
      then show "sorted (map key f)" using srt srt_i by auto
    next
      fix f x assume "f \<in> set fid'" and x: "x \<in> set f"
      then have "f = rs \<or> f \<in> set fid" unfolding res using set_update_subset_insert by fastforce
      moreover have "set rs \<subseteq> set (fid ! ?i)" using Cons by auto
      moreover have "fid ! ?i \<in> set fid" using i by simp
      ultimately show "ranks x" using rkf x by blast
    qed
    have b: "\<forall>e \<in> set (take sz' pq'). key (pq ! 0) \<le> key e"
    proof
      fix e assume "e \<in> set (take sz' pq')"
      then consider "e = new2" | "e \<in> set (take n ?pq1)" using mem res by auto
      then show "key (pq ! 0) \<le> key e"
      proof cases
        case 1
        then show ?thesis using ile [of r] Cons by (simp add: new2_def)
      next
        case 2
        then show ?thesis using ge by simp
      qed
    qed
    have c: "add_mset (crec_of (pq ! 0)) (queue_records pq' sz' fid') = queue_records pq sz fid"
    proof -
      define A where "A = image_mset crec_of (mset (take sz pq) - {#pq ! 0#})"
      define S where "S = sum_list (map mset (fid[?i := rs]))"
      have e1: "image_mset crec_of (mset (take (Suc n) pq')) = add_mset r A"
        unfolding m2 m1 A_def by (simp add: new2_def)
      have e2: "image_mset crec_of (mset (take sz pq)) = add_mset (crec_of (pq ! 0)) A"
        unfolding A_def using image_mset_remove1 [OF topm, of crec_of] by simp
      have e3: "sum_list (map mset fid) = add_mset r S"
        unfolding S_def using sum_list_mset_update [OF i Cons] by simp
      have "queue_records pq' sz' fid' = add_mset r A + S"
        unfolding queue_records_def res(2) e1 by (simp add: res S_def)
      moreover have "queue_records pq sz fid = add_mset (crec_of (pq ! 0)) A + add_mset r S"
        unfolding queue_records_def e2 e3 ..
      ultimately show ?thesis by simp
    qed
    have d: "drained pq' sz' fid'" if dr: "drained pq sz fid"
      unfolding res drained_def
    proof (intro allI impI)
      fix j assume j: "j < length (fid[?i := rs])" "fid[?i := rs] ! j \<noteq> []"
      show "\<exists>e \<in> set (take (Suc n) (insert_pq ?pq1 new2 (Suc n))). id' e = j"
      proof (cases "j = ?i")
        case True
        have "id' new2 = ?i" by (simp add: new2_def)
        with True new2_in show ?thesis unfolding res by (intro bexI [of _ new2]) simp_all
      next
        case False
        then have "fid ! j \<noteq> []" using j by simp
        then obtain e where "e \<in> set (take sz pq)" "id' e = j" using dr j by (auto simp: drained_def)
        then obtain e' where "e' \<in> set (take n ?pq1)" "id' e' = j" using other False by blast
        then show ?thesis using old_in res by auto
      qed
    qed
    show ?thesis using a b c d res by simp
  qed
qed

lemma remaining_pop_refill:
  "0 < sz \<Longrightarrow> remaining (pop_refill (pq, sz, new, fid)) < remaining (pq, sz, new, fid)"
proof -
  have upd: "i < length fs \<Longrightarrow> fs ! i = r # rs \<Longrightarrow>
      Suc (sum_list (map length (fs[i := rs]))) = sum_list (map length fs)"
    for i and fs :: "CREC list list" and r rs
  proof (induction fs arbitrary: i)
    case Nil
    then show ?case by simp
  next
    case (Cons f fs)
    then show ?case by (cases i) auto
  qed
  assume "0 < sz"
  then show ?thesis
    using upd [of "id' (pq ! 0)" fid]
    by (auto simp: pop_refill_def fread_crec_def Let_def split: list.splits prod.splits)
qed

lemma sum_list_mset_empty:
  "(\<forall>i < length fid. fid ! i = []) \<Longrightarrow> sum_list (map mset fid) = {#}"
proof (induction fid)
  case Nil
  then show ?case by simp
next
  case (Cons f fid)
  have "f = []" using Cons.prems by (auto dest: spec [of _ 0])
  moreover have "\<forall>i < length fid. fid ! i = []"
    using Cons.prems by (auto dest: spec [of _ "Suc i" for i])
  ultimately show ?case using Cons.IH by simp
qed

lemma nth0_in_take: "0 < n \<Longrightarrow> n \<le> length xs \<Longrightarrow> xs ! 0 \<in> set (take n xs)"
  by (cases n; cases xs) auto

lemma filter_mset_none: "filter_mset P M = {#} \<longleftrightarrow> (\<forall>x \<in># M. \<not> P x)"
  by (induction M) auto

lemma double_sum_snoc: "vs \<noteq> [] \<Longrightarrow> double_sum (vs @ [v]) = double_add (double_sum vs) v"
  by (cases vs) simp_all

lemma merge_write_summed:
  assumes mw: "merge_write tp old fout = (old1, fout1)" and le: "key old \<le> key tp"
    and s: "summed (fout @ [crec_of old]) M"
  shows "key old1 = key tp"
    and "summed (fout1 @ [crec_of old1]) (add_mset (crec_of tp) M)"
proof -
  show "key old1 = key tp"
    using mw by (auto simp: merge_write_def key_def split: if_splits)
  from s have srt: "sorted_wrt (<) (map key (fout @ [crec_of old]))"
    and ks: "key ` set (fout @ [crec_of old]) = key ` set_mset M"
    and vals: "\<And>r. r \<in> set (fout @ [crec_of old]) \<Longrightarrow>
        \<exists>vs. mset vs = image_mset val (filter_mset (\<lambda>x. key x = key r) M) \<and> val r = double_sum vs"
    by (auto simp: summed_def)
  have lt: "key x < key old" if "x \<in> set fout" for x
    using srt that by (auto simp: sorted_wrt_append)
  have kM: "k \<le> key old" if "k \<in> key ` set_mset M" for k
  proof -
    from that have "k \<in> key ` set (fout @ [crec_of old])" by (simp only: ks)
    then show ?thesis using lt by (auto simp: less_imp_le)
  qed
  show "summed (fout1 @ [crec_of old1]) (add_mset (crec_of tp) M)"
  proof (cases "key tp = key old")
    case True
    then have r: "fout1 = fout" "old1 = old\<lparr>val := double_add (val old) (val tp)\<rparr>"
      using mw by (auto simp: merge_write_def key_def)
    have ko: "key old1 = key old" by (simp add: r key_def)
    obtain vs where vs: "mset vs = image_mset val (filter_mset (\<lambda>x. key x = key old) M)"
      "val old = double_sum vs"
      using vals [of "crec_of old"] by auto
    have "key old \<in> key ` set_mset M" using ks by auto
    then have "filter_mset (\<lambda>x. key x = key old) M \<noteq> {#}"
      by (auto simp: filter_mset_none)
    then have ne: "vs \<noteq> []" using vs(1) by auto
    show ?thesis
      unfolding summed_def
    proof (intro conjI ballI)
      show "sorted_wrt (<) (map key (fout1 @ [crec_of old1]))"
        using srt ko by (simp add: r(1))
      show "key ` set (fout1 @ [crec_of old1]) = key ` set_mset (add_mset (crec_of tp) M)"
        using ks ko True by (auto simp: r(1))
    next
      fix x assume "x \<in> set (fout1 @ [crec_of old1])"
      then consider "x \<in> set fout" | "x = crec_of old1" by (auto simp: r(1))
      then show "\<exists>vs. mset vs = image_mset val (filter_mset (\<lambda>y. key y = key x) (add_mset (crec_of tp) M)) \<and>
          val x = double_sum vs"
      proof cases
        case 1
        then have "key tp \<noteq> key x" using lt [of x] True by simp
        then show ?thesis using vals [of x] 1 by simp
      next
        case 2
        have "mset (vs @ [val tp]) =
            image_mset val (filter_mset (\<lambda>y. key y = key x) (add_mset (crec_of tp) M))"
          using vs(1) True ko by (simp add: 2)
        moreover have "val x = double_sum (vs @ [val tp])"
          using vs(2) ne by (simp add: 2 r(2) double_sum_snoc crec_of_def)
        ultimately show ?thesis by blast
      qed
    qed
  next
    case False
    then have r: "fout1 = fout @ [crec_of old]" "old1 = tp"
      using mw by (auto simp: merge_write_def key_def)
    have lt2: "key old < key tp" using False le by simp
    have none: "filter_mset (\<lambda>y. key y = key tp) M = {#}"
    proof -
      have "key y \<noteq> key tp" if "y \<in># M" for y
        using kM [of "key y"] that lt2 by auto
      then show ?thesis by (auto simp: filter_mset_none)
    qed
    show ?thesis
      unfolding summed_def
    proof (intro conjI ballI)
      have "key x < key tp" if "x \<in> set fout" for x
        using lt [OF that] lt2 by (rule less_trans)
      then show "sorted_wrt (<) (map key (fout1 @ [crec_of old1]))"
        using srt lt2 unfolding r by (auto simp: sorted_wrt_append)
      show "key ` set (fout1 @ [crec_of old1]) = key ` set_mset (add_mset (crec_of tp) M)"
        using ks unfolding r by auto
    next
      fix x assume "x \<in> set (fout1 @ [crec_of old1])"
      then consider "x \<in> set (fout @ [crec_of old])" | "x = crec_of tp" unfolding r by auto
      then show "\<exists>vs. mset vs = image_mset val (filter_mset (\<lambda>y. key y = key x) (add_mset (crec_of tp) M)) \<and>
          val x = double_sum vs"
      proof cases
        case 1
        then have "key x \<le> key old" using lt [of x] by (auto simp: less_imp_le)
        then have "key tp \<noteq> key x" using lt2 by auto
        then show ?thesis using vals [OF 1] by simp
      next
        case 2
        have "mset [val tp] =
            image_mset val (filter_mset (\<lambda>y. key y = key x) (add_mset (crec_of tp) M))"
          using none by (simp add: 2)
        moreover have "val x = double_sum [val tp]" by (simp add: 2)
        ultimately show ?thesis by blast
      qed
    qed
  qed
qed

lemma merge_loop_props:
  "merge_inv pq sz fid \<Longrightarrow> drained pq sz fid \<Longrightarrow> \<forall>e \<in> set (take sz pq). key old \<le> key e \<Longrightarrow>
   summed (fout @ [crec_of old]) M \<Longrightarrow>
   merge_loop (pq, sz, new, fid) old fout = (old', fout') \<Longrightarrow>
   summed (fout' @ [crec_of old']) (M + queue_records pq sz fid)"
proof (induction "remaining (pq, sz, new, fid)" arbitrary: pq sz new fid old fout M rule: less_induct)
  case less
  show ?case
  proof (cases "0 < sz")
    case False
    then have res: "old' = old" "fout' = fout"
      using less.prems(5) by (simp_all add: merge_loop.simps)
    have "queue_records pq sz fid = {#}"
      using less.prems(2) False sum_list_mset_empty [of fid]
      by (auto simp: drained_def queue_records_def)
    then show ?thesis using less.prems(4) res by simp
  next
    case True
    obtain pq1 sz1 new1 fid1 where pr: "pop_refill (pq, sz, new, fid) = (pq1, sz1, new1, fid1)"
      by (cases "pop_refill (pq, sz, new, fid)") blast
    obtain old1 fout1 where mw: "merge_write (pq ! 0) old fout = (old1, fout1)"
      by (cases "merge_write (pq ! 0) old fout") blast
    have unf: "merge_loop (pq1, sz1, new1, fid1) old1 fout1 = (old', fout')"
      using less.prems(5) True pr mw by (simp add: merge_loop.simps)
    note pp = pop_refill_props [OF less.prems(1) True pr]
    have top: "pq ! 0 \<in> set (take sz pq)"
      using less.prems(1) True by (intro nth0_in_take) (auto simp: merge_inv_def)
    then have le: "key old \<le> key (pq ! 0)" using less.prems(3) by simp
    note mk = merge_write_summed [OF mw le less.prems(4)]
    have dec: "remaining (pq1, sz1, new1, fid1) < remaining (pq, sz, new, fid)"
      using remaining_pop_refill [OF True, of pq new fid] pr by simp
    have ge: "\<forall>e \<in> set (take sz1 pq1). key old1 \<le> key e" using pp mk(1) by simp
    have inv1: "merge_inv pq1 sz1 fid1" using pp by simp
    have dr1: "drained pq1 sz1 fid1" using pp less.prems(2) by simp
    have ih: "summed (fout' @ [crec_of old'])
        (add_mset (crec_of (pq ! 0)) M + queue_records pq1 sz1 fid1)"
      by (rule less.hyps [OF dec inv1 dr1 ge mk(2) unf])
    have q: "queue_records pq sz fid = add_mset (crec_of (pq ! 0)) (queue_records pq1 sz1 fid1)"
      using pp by simp
    show ?thesis using ih unfolding q by simp
  qed
qed

lemma prime_loop_props:
  "i \<le> num \<Longrightarrow> num \<le> length pq \<Longrightarrow> length fid = num \<Longrightarrow> heap_ok pq i \<Longrightarrow>
   \<forall>e \<in> set (take i pq). ranks e \<and> id' e < num \<and> (\<forall>r \<in> set (fid ! id' e). key e \<le> key r) \<Longrightarrow>
   \<forall>f \<in> set fid. sorted (map key f) \<and> (\<forall>r \<in> set f. ranks r) \<Longrightarrow>
   \<forall>j. i \<le> j \<and> j < num \<longrightarrow> fid ! j \<noteq> [] \<Longrightarrow>
   \<forall>j < i. \<exists>e \<in> set (take i pq). id' e = j \<Longrightarrow>
   prime_loop num i pq new fid = (pq', new', fid') \<Longrightarrow>
   merge_inv pq' num fid' \<and> length fid' = num \<and>
   queue_records pq' num fid' = queue_records pq i fid \<and>
   (\<forall>j < num. \<exists>e \<in> set (take num pq'). id' e = j)"
proof (induction "num - i" arbitrary: i pq new fid)
  case 0
  then have "i = num" by simp
  then have "pq' = pq" "fid' = fid" using "0.prems"(9) by (simp_all add: prime_loop.simps)
  then show ?case using 0 \<open>i = num\<close> by (auto simp: merge_inv_def)
next
  case (Suc d)
  then have i: "i < num" by simp
  obtain r rs where f: "fid ! i = r # rs" using Suc.prems(7) i by (cases "fid ! i") auto
  define new2 where "new2 = new\<lparr>word1 := word1 r, word2 := word2 r, val := val r, id' := i\<rparr>"
  define fid1 where "fid1 = fid[i := rs]"
  define pq1 where "pq1 = insert_pq pq new2 (Suc i)"
  have unf: "prime_loop num (Suc i) pq1 new2 fid1 = (pq', new', fid')"
    using Suc.prems(9) i Suc.prems(3) f
    by (subst (asm) prime_loop.simps)
      (auto simp: fread_crec_def Let_def new2_def fid1_def pq1_def)
  have il: "i < length pq" using i Suc.prems(2) by simp
  have fin: "fid ! i \<in> set fid" using i Suc.prems(3) by simp
  have rr: "ranks r" and rrs: "\<forall>x \<in> set rs. ranks x" using Suc.prems(6) fin f by auto
  have rn2: "ranks new2" using rr by (simp add: new2_def ranks_def)
  have rk: "\<forall>e \<in> set (take i pq). ranks e" using Suc.prems(5) by blast
  have h1: "heap_ok pq1 (Suc i)" and l1: "length pq1 = length pq"
    and m1: "mset (take (Suc i) pq1) = add_mset new2 (mset (take i pq))"
    using insert_pq_props [OF Suc.prems(4) il rk rn2] by (simp_all add: pq1_def)
  have mem: "e = new2 \<or> e \<in> set (take i pq)" if "e \<in> set (take (Suc i) pq1)" for e
  proof -
    from that have "e \<in># mset (take (Suc i) pq1)" by simp
    then show ?thesis unfolding m1 by auto
  qed
  have mem': "e \<in> set (take (Suc i) pq1)" if "e = new2 \<or> e \<in> set (take i pq)" for e
  proof -
    from that have "e \<in># mset (take (Suc i) pq1)" unfolding m1 by auto
    then show ?thesis by simp
  qed
  have id2: "id' new2 = i" by (simp add: new2_def)
  have len1: "length fid1 = num" using Suc.prems(3) by (simp add: fid1_def)
  have fsrt: "sorted (map key (r # rs))" using Suc.prems(6) fin f by auto
  have sub1: "set (fid1 ! j) \<subseteq> set (fid ! j)" for j
    using i Suc.prems(3) f by (cases "j = i") (auto simp: fid1_def)
  have new2_le: "\<forall>x \<in> set (fid1 ! i). key new2 \<le> key x"
    using fsrt i Suc.prems(3) by (auto simp: fid1_def new2_def)
  have ent1: "\<forall>e \<in> set (take (Suc i) pq1).
      ranks e \<and> id' e < num \<and> (\<forall>x \<in> set (fid1 ! id' e). key e \<le> key x)"
  proof
    fix e assume "e \<in> set (take (Suc i) pq1)"
    then consider "e = new2" | "e \<in> set (take i pq)" using mem by blast
    then show "ranks e \<and> id' e < num \<and> (\<forall>x \<in> set (fid1 ! id' e). key e \<le> key x)"
    proof cases
      case 1
      then show ?thesis using id2 i new2_le rn2 by simp
    next
      case 2
      then show ?thesis using Suc.prems(5) sub1 by blast
    qed
  qed
  have srt1: "\<forall>g \<in> set fid1. sorted (map key g) \<and> (\<forall>x \<in> set g. ranks x)"
  proof
    fix g assume "g \<in> set fid1"
    then have "g \<in> set fid \<or> g = rs"
      unfolding fid1_def using set_update_subset_insert [of fid i] by auto
    then show "sorted (map key g) \<and> (\<forall>x \<in> set g. ranks x)"
      using Suc.prems(6) fsrt rrs by auto
  qed
  have ne1: "\<forall>j. Suc i \<le> j \<and> j < num \<longrightarrow> fid1 ! j \<noteq> []"
    using Suc.prems(7) by (auto simp: fid1_def)
  have ids1: "\<forall>j < Suc i. \<exists>e \<in> set (take (Suc i) pq1). id' e = j"
  proof (intro allI impI)
    fix j assume "j < Suc i"
    then consider "j = i" | "j < i" by linarith
    then show "\<exists>e \<in> set (take (Suc i) pq1). id' e = j"
    proof cases
      case 1
      then show ?thesis using id2 mem' [of new2] by blast
    next
      case 2
      then obtain e where "e \<in> set (take i pq)" "id' e = j" using Suc.prems(8) by blast
      then show ?thesis using mem' [of e] by blast
    qed
  qed
  have d: "d = num - Suc i" using Suc.hyps(2) by simp
  have si: "Suc i \<le> num" using i by simp
  have nl: "num \<le> length pq1" using l1 Suc.prems(2) by simp
  have ih: "merge_inv pq' num fid' \<and> length fid' = num \<and>
      queue_records pq' num fid' = queue_records pq1 (Suc i) fid1 \<and>
      (\<forall>j < num. \<exists>e \<in> set (take num pq'). id' e = j)"
    by (rule Suc.hyps(1) [OF d si nl len1 h1 ent1 srt1 ne1 ids1 unf])
  have "queue_records pq1 (Suc i) fid1 = queue_records pq i fid"
    unfolding queue_records_def m1
    using sum_list_mset_update [of i fid r rs] i Suc.prems(3) f
    by (simp add: fid1_def new2_def)
  then show ?case using ih by simp
qed

lemma merge_files_props:
  assumes num: "files \<noteq> []"
    and ok: "\<forall>f \<in> set files. f \<noteq> [] \<and> sorted (map key f) \<and> (\<forall>r \<in> set f. ranks r)"
  shows "summed (merge_files (length files) files mem new0) (sum_list (map mset files))"
proof -
  let ?num = "length files"
  let ?pq0 = "map mem [0 ..< ?num]"
  have n0: "0 < ?num" using num by simp
  obtain pq new fid where pl: "prime_loop ?num 0 ?pq0 new0 files = (pq, new, fid)"
    by (cases "prime_loop ?num 0 ?pq0 new0 files") blast
  have h0: "heap_ok ?pq0 0" by (simp add: heap_ok_def)
  have srt: "\<forall>f \<in> set files. sorted (map key f) \<and> (\<forall>r \<in> set f. ranks r)" using ok by blast
  have ne: "\<forall>j. 0 \<le> j \<and> j < ?num \<longrightarrow> files ! j \<noteq> []" using ok by simp
  have p: "merge_inv pq ?num fid \<and> length fid = ?num \<and>
      queue_records pq ?num fid = queue_records ?pq0 0 files \<and>
      (\<forall>j < ?num. \<exists>e \<in> set (take ?num pq). id' e = j)"
    by (rule prime_loop_props [OF _ _ _ h0 _ srt ne _ pl]) simp_all
  then have inv: "merge_inv pq ?num fid" by simp
  have q0: "queue_records pq ?num fid = sum_list (map mset files)"
    using p by (simp add: queue_records_def)
  have dr: "drained pq ?num fid" using p by (simp add: drained_def)
  obtain pq1 sz1 new1 fid1 where pr: "pop_refill (pq, ?num, new, fid) = (pq1, sz1, new1, fid1)"
    by (cases "pop_refill (pq, ?num, new, fid)") blast
  note pp = pop_refill_props [OF inv n0 pr]
  obtain old1 fout where ml: "merge_loop (pq1, sz1, new1, fid1) (pq ! 0) [] = (old1, fout)"
    by (cases "merge_loop (pq1, sz1, new1, fid1) (pq ! 0) []") blast
  have out: "merge_files ?num files mem new0 = fout @ [crec_of old1]"
    by (simp add: merge_files_def pl pr ml Let_def)
  have s0: "summed ([] @ [crec_of (pq ! 0)]) {#crec_of (pq ! 0)#}"
  proof -
    have "mset [val (pq ! 0)] =
        image_mset val (filter_mset (\<lambda>x. key x = key (pq ! 0)) {#crec_of (pq ! 0)#})" by simp
    moreover have "val (pq ! 0) = double_sum [val (pq ! 0)]" by simp
    ultimately show ?thesis unfolding summed_def by (simp del: double_sum.simps)
  qed
  have inv1: "merge_inv pq1 sz1 fid1" and dr1: "drained pq1 sz1 fid1"
    and ge: "\<forall>e \<in> set (take sz1 pq1). key (pq ! 0) \<le> key e"
    using pp dr by simp_all
  have "summed (fout @ [crec_of old1]) ({#crec_of (pq ! 0)#} + queue_records pq1 sz1 fid1)"
    by (rule merge_loop_props [OF inv1 dr1 ge s0 ml])
  moreover have "sum_list (map mset files) = add_mset (crec_of (pq ! 0)) (queue_records pq1 sz1 fid1)"
    using pp q0 by simp
  ultimately show ?thesis unfolding out by simp
qed

lemma set_mset_runs: "set_mset (sum_list (map mset runs)) = (\<Union>f \<in> set runs. set f)"
  by (induction runs) simp_all

lemma strict_keys_sorted:
  "sorted_wrt (\<lambda>a b. key a < key b) f \<Longrightarrow> sorted (map key f)"
  by (induction f) (auto simp: less_imp_le)

subsection \<open>The sort\<close>

lemma set_qsort_insert [simp]: "set (qsort_insert cmp x ys) = insert x (set ys)"
  by (induction ys) auto

lemma mset_qsort_insert [simp]: "mset (qsort_insert cmp x ys) = add_mset x (mset ys)"
  by (induction ys) auto

lemma mset_qsort [simp]: "mset (qsort cmp xs) = mset xs"
  by (induction xs) (simp_all add: qsort_def)

lemma set_qsort [simp]: "set (qsort cmp xs) = set xs"
  using mset_qsort [of cmp xs] by (metis set_mset_mset)

lemma length_qsort [simp]: "length (qsort cmp xs) = length xs"
  using mset_qsort [of cmp xs] by (metis size_mset)

lemma qsort_Cons: "qsort cmp (x # xs) = qsort_insert cmp x (qsort cmp xs)"
  by (simp add: qsort_def)

lemma sorted_qsort_insert:
  assumes tot: "\<And>a b. a \<in> A \<Longrightarrow> b \<in> A \<Longrightarrow> cmp a b \<le> 0 \<or> cmp b a \<le> 0"
    and trans: "\<And>a b c. a \<in> A \<Longrightarrow> b \<in> A \<Longrightarrow> c \<in> A \<Longrightarrow> cmp a b \<le> 0 \<Longrightarrow> cmp b c \<le> 0 \<Longrightarrow> cmp a c \<le> 0"
  shows "x \<in> A \<Longrightarrow> set ys \<subseteq> A \<Longrightarrow> sorted_wrt (\<lambda>a b. cmp a b \<le> 0) ys \<Longrightarrow>
    sorted_wrt (\<lambda>a b. cmp a b \<le> 0) (qsort_insert cmp x ys)"
proof (induction ys)
  case Nil
  then show ?case by simp
next
  case (Cons y ys)
  show ?case
  proof (cases "cmp x y \<le> 0")
    case True
    have "cmp x z \<le> 0" if "z \<in> set ys" for z
      using trans [of x y z] True Cons.prems that by auto
    then show ?thesis using True Cons.prems by auto
  next
    case False
    then have "cmp y x \<le> 0" using tot [of x y] Cons.prems by auto
    then show ?thesis using False Cons by auto
  qed
qed

lemma sorted_qsort:
  assumes tot: "\<And>a b. a \<in> A \<Longrightarrow> b \<in> A \<Longrightarrow> cmp a b \<le> 0 \<or> cmp b a \<le> 0"
    and trans: "\<And>a b c. a \<in> A \<Longrightarrow> b \<in> A \<Longrightarrow> c \<in> A \<Longrightarrow> cmp a b \<le> 0 \<Longrightarrow> cmp b c \<le> 0 \<Longrightarrow> cmp a c \<le> 0"
  shows "set xs \<subseteq> A \<Longrightarrow> sorted_wrt (\<lambda>a b. cmp a b \<le> 0) (qsort cmp xs)"
proof (induction xs)
  case Nil
  then show ?case by (simp add: qsort_def)
next
  case (Cons x xs)
  then show ?case
    using sorted_qsort_insert [of A cmp x "qsort cmp xs", OF tot trans]
    by (simp add: qsort_Cons)
qed

subsection \<open>Long tokens\<close>

lemma store_char_take:
  "length word \<le> 998 \<Longrightarrow> store_char word ch = take 998 (word @ [ch])"
  by (auto simp: store_char_def MAX_STRING_LENGTH_def Let_def butlast_append)

lemma take_take_append: "take n (take n xs @ ys) = take n (xs @ ys)"
  by (induction xs arbitrary: n) (auto simp: take_Cons split: nat.splits)

lemma get_word_loop_token:
  assumes c: "c = CHR '' '' \<or> c = CHR 0x09 \<or> c = CHR 0x0A"
  shows "\<forall>ch \<in> set t. \<not> isspace ch \<Longrightarrow> length word \<le> 998 \<Longrightarrow> word @ t \<noteq> [] \<Longrightarrow>
    get_word_loop word (t @ c # rest) =
      (0, take 998 (word @ t), (if c = CHR 0x0A then c # rest else rest), False)"
proof (induction t arbitrary: word)
  case Nil
  then show ?case using c by auto
next
  case (Cons ch t)
  have ch: "ch \<noteq> CHR 0x0D" "\<not> (ch = CHR '' '' \<or> ch = CHR 0x09 \<or> ch = CHR 0x0A)"
    using Cons.prems(1) by (auto simp: isspace_def)
  let ?w = "take 998 (word @ [ch])"
  have "get_word_loop word ((ch # t) @ c # rest) = get_word_loop ?w (t @ c # rest)"
    using ch Cons.prems(2) by (simp add: store_char_take)
  also have "\<dots> = (0, take 998 (?w @ t), (if c = CHR 0x0A then c # rest else rest), False)"
    using Cons.prems by (intro Cons.IH) auto
  also have "take 998 (?w @ t) = take 998 (word @ ch # t)"
    using take_take_append [of 998 "word @ [ch]" t] by simp
  finally show ?case .
qed

lemma get_word_token:
  assumes "t \<noteq> []" and "\<forall>ch \<in> set t. \<not> isspace ch"
    and "c = CHR '' '' \<or> c = CHR 0x09 \<or> c = CHR 0x0A"
  shows "get_word (t @ c # rest, False) =
      (0, take 998 t, (if c = CHR 0x0A then c # rest else rest), False)"
  using get_word_loop_token [OF assms(3) assms(2), of "[]" rest] assms(1)
  by (simp add: get_word_def)

lemma scan_chars_token:
  "\<forall>ch \<in> set t. \<not> isspace ch \<Longrightarrow> isspace c \<Longrightarrow>
   scan_chars width (t @ c # rest) = (take width t, drop width t @ c # rest)"
proof (induction t arbitrary: width)
  case Nil
  then show ?case by (cases width) auto
next
  case (Cons ch t)
  then show ?case by (cases width) auto
qed

lemma fscanf_string_token:
  assumes "t \<noteq> []" and "\<forall>ch \<in> set t. \<not> isspace ch" and "isspace c"
  shows "fscanf_string width (t @ c # rest) = Some (take width t, drop width t @ c # rest)"
proof -
  have "dropWhile isspace (t @ c # rest) = t @ c # rest"
    using assms(1,2) by (cases t) auto
  then show ?thesis
    using scan_chars_token [OF assms(2,3)] assms(1) by (simp add: fscanf_string_def Let_def)
qed

subsection \<open>The string comparison\<close>

lemma c_char_inj: "c_char sc a = c_char sc b \<longleftrightarrow> a = b"
proof
  assume e: "c_char sc a = c_char sc b"
  define m n where "m = (of_char a :: nat)" and "n = (of_char b :: nat)"
  have r: "m < 256" "n < 256" by (simp_all add: m_def n_def)
  from e have "(if sc \<and> 128 \<le> m then int m - 256 else int m) =
      (if sc \<and> 128 \<le> n then int n - 256 else int n)"
    unfolding c_char_def m_def n_def .
  with r have "m = n" by (auto split: if_splits)
  then show "a = b" by (simp add: m_def n_def)
qed simp

lemma c_char_zero: "c_char sc a = 0 \<longleftrightarrow> a = CHR 0x00"
proof -
  have "c_char sc (CHR 0x00) = 0" by (simp add: c_char_def)
  then show ?thesis using c_char_inj [of sc a "CHR 0x00"] by auto
qed

lemma scmp_refl [simp]: "scmp sc w w = 0"
  by (induction w) auto

lemma scmp_swap: "scmp sc b a = - scmp sc a b"
  by (induction sc a b rule: scmp.induct) auto

lemma scmp_zero:
  "CHR 0x00 \<notin> set a \<Longrightarrow> CHR 0x00 \<notin> set b \<Longrightarrow> scmp sc a b = 0 \<longleftrightarrow> a = b"
  by (induction sc a b rule: scmp.induct) (auto simp: c_char_zero c_char_inj)

lemma scmp_trans:
  "CHR 0x00 \<notin> set a \<Longrightarrow> CHR 0x00 \<notin> set b \<Longrightarrow> CHR 0x00 \<notin> set c \<Longrightarrow>
   scmp sc a b \<le> 0 \<Longrightarrow> scmp sc b c \<le> 0 \<Longrightarrow> scmp sc a c \<le> 0"
proof (induction a arbitrary: b c)
  case Nil
  show ?case
  proof (cases c)
    case Nil
    then show ?thesis by simp
  next
    case (Cons c0 cs)
    show ?thesis
    proof (cases b)
      case Nil
      then show ?thesis using \<open>scmp sc b c \<le> 0\<close> by simp
    next
      case b: (Cons b0 bs)
      have "0 \<le> c_char sc b0" using Nil.prems(4) b by simp
      moreover have "c_char sc b0 \<le> c_char sc c0"
        using Nil.prems(5) b Cons by (auto split: if_splits)
      ultimately show ?thesis using Cons by simp
    qed
  qed
next
  case (Cons a0 as)
  have a0: "c_char sc a0 \<noteq> 0" using Cons.prems(1) by (auto simp: c_char_zero)
  show ?case
  proof (cases b)
    case Nil
    then have neg: "c_char sc a0 < 0" using Cons.prems(4) a0 by simp
    show ?thesis
    proof (cases c)
      case Nil
      then show ?thesis using neg by simp
    next
      case c: (Cons c0 cs)
      have "0 \<le> c_char sc c0" using Cons.prems(5) Nil c by simp
      then show ?thesis using neg c by auto
    qed
  next
    case b: (Cons b0 bs)
    have ab: "c_char sc a0 \<le> c_char sc b0"
      using Cons.prems(4) b by (auto split: if_splits)
    show ?thesis
    proof (cases c)
      case Nil
      then have "c_char sc b0 \<le> 0" using Cons.prems(5) b by simp
      then show ?thesis using ab Nil by simp
    next
      case c: (Cons c0 cs)
      have bc: "c_char sc b0 \<le> c_char sc c0"
        using Cons.prems(5) b c by (auto split: if_splits)
      show ?thesis
      proof (cases "a0 = c0")
        case True
        then have "b0 = a0" using ab bc c_char_inj [of sc a0 b0] by simp
        then have "scmp sc as bs \<le> 0" "scmp sc bs cs \<le> 0"
          using Cons.prems(4,5) b c True by simp_all
        then have "scmp sc as cs \<le> 0"
          using Cons.IH [of bs cs] Cons.prems(1,2,3) b c by simp
        then show ?thesis using True c by simp
      next
        case False
        then show ?thesis using ab bc c by simp
      qed
    qed
  qed
qed

lemma scmp_bytes_less:
  "CHR 0x00 \<notin> set a \<Longrightarrow> CHR 0x00 \<notin> set b \<Longrightarrow>
   \<not> sc \<or> (\<forall>c \<in> set a \<union> set b. (of_char c :: nat) < 128) \<Longrightarrow>
   scmp sc a b < 0 \<longleftrightarrow> bytes_less a b"
proof (induction sc a b rule: scmp.induct)
  case (1 sc)
  then show ?case by simp
next
  case (2 sc c2 s2)
  have "c_char sc c2 \<noteq> 0" using 2 by (auto simp: c_char_zero)
  moreover have "0 \<le> c_char sc c2" using 2 by (auto simp: c_char_def)
  ultimately show ?case by simp
next
  case (3 sc c1 s1)
  have "0 \<le> c_char sc c1" using 3 by (auto simp: c_char_def)
  then show ?case by simp
next
  case (4 sc c1 s1 c2 s2)
  have v: "c_char sc c1 = int (of_char c1)" "c_char sc c2 = int (of_char c2)"
    using "4.prems"(3) by (auto simp: c_char_def)
  show ?case
  proof (cases "c1 = c2")
    case True
    then show ?thesis using 4 by auto
  next
    case False
    then show ?thesis using v by auto
  qed
qed

subsection \<open>The comparison of vocabulary entries\<close>

lemma CompareVocabTie_le:
  "CompareVocabTie sc a b \<le> 0 \<longleftrightarrow> snd b < snd a \<or> (snd a = snd b \<and> scmp sc (fst a) (fst b) \<le> 0)"
  by (auto simp: CompareVocabTie_def Let_def)

lemma CompareVocabTie_total: "CompareVocabTie sc a b \<le> 0 \<or> CompareVocabTie sc b a \<le> 0"
  using scmp_swap [of sc "fst a" "fst b"] by (auto simp: CompareVocabTie_le)

lemma CompareVocabTie_trans:
  assumes "CHR 0x00 \<notin> set (fst a)" "CHR 0x00 \<notin> set (fst b)" "CHR 0x00 \<notin> set (fst c)"
    and "CompareVocabTie sc a b \<le> 0" "CompareVocabTie sc b c \<le> 0"
  shows "CompareVocabTie sc a c \<le> 0"
  using assms scmp_trans [of "fst a" "fst b" "fst c" sc] by (auto simp: CompareVocabTie_le)

subsection \<open>The vocabulary hash holds every word once\<close>

lemma chain_search_Some:
  "chain_search sc w hprv chain = Some (p, h, r) \<Longrightarrow> hprv @ chain = p @ h # r"
proof (induction chain arbitrary: hprv)
  case Nil
  then show ?case by simp
next
  case (Cons x chain)
  show ?case
  proof (cases "scmp sc (fst x) w \<noteq> 0")
    case True
    then have "chain_search sc w (hprv @ [x]) chain = Some (p, h, r)" using Cons.prems by simp
    then have "(hprv @ [x]) @ chain = p @ h # r" by (rule Cons.IH)
    then show ?thesis by simp
  next
    case False
    then show ?thesis using Cons.prems by simp
  qed
qed

lemma chain_search_None:
  "chain_search sc w hprv chain = None \<Longrightarrow> w \<notin> fst ` set chain"
proof (induction chain arbitrary: hprv)
  case Nil
  then show ?case by simp
next
  case (Cons h chain)
  then have "scmp sc (fst h) w \<noteq> 0" "chain_search sc w (hprv @ [h]) chain = None"
    by (auto split: if_splits)
  then show ?case using Cons.IH [of "hprv @ [h]"] by auto
qed

lemma hashinsert_count_ok:
  assumes ok: "ht_ok sc B ht" and w: "CHR 0x00 \<notin> set w" "set w \<subseteq> B"
  shows "ht_ok sc B (hashinsert_count sc ht w)"
proof -
  let ?h = "bitwisehash sc w TSIZE SEED"
  from ok have d: "\<And>h. distinct (map fst (ht h))"
    and e: "\<And>h x. x \<in> set (ht h) \<Longrightarrow> bitwisehash sc (fst x) TSIZE SEED = h \<and>
        CHR 0x00 \<notin> set (fst x) \<and> set (fst x) \<subseteq> B"
    by (auto simp: ht_ok_def)
  show ?thesis
  proof (cases "chain_search sc w [] (ht ?h)")
    case None
    then have new: "w \<notin> fst ` set (ht ?h)" by (rule chain_search_None)
    have r: "hashinsert_count sc ht w = ht(?h := ht ?h @ [(w, 1)])"
      using None by (simp add: hashinsert_count_def Let_def)
    show ?thesis unfolding r ht_ok_def using d e new w by auto
  next
    case (Some hit)
    obtain p x r where hit: "hit = (p, x, r)" by (cases hit) auto
    have ch: "ht ?h = p @ x # r" using chain_search_Some [of sc w "[]" "ht ?h" p x r] Some hit by simp
    have r: "hashinsert_count sc ht w = ht(?h := (fst x, snd x + 1) # p @ r)"
      using Some hit by (cases p) (auto simp: hashinsert_count_def Let_def)
    have dx: "distinct (map fst ((fst x, snd x + 1) # p @ r))"
      using d [of ?h] unfolding ch by auto
    have ex: "bitwisehash sc (fst y) TSIZE SEED = ?h \<and> CHR 0x00 \<notin> set (fst y) \<and> set (fst y) \<subseteq> B"
      if "y \<in> set ((fst x, snd x + 1) # p @ r)" for y
    proof -
      from that have "fst y \<in> fst ` set (ht ?h)" unfolding ch by force
      then obtain z where "z \<in> set (ht ?h)" "fst z = fst y" by auto
      then show ?thesis using e [of z ?h] by simp
    qed
    show ?thesis unfolding r ht_ok_def using d e dx ex by auto
  qed
qed

lemma scan_chars_bytes:
  "scan_chars width fid = (str, fid1) \<Longrightarrow> set str \<subseteq> set fid \<and> set fid1 \<subseteq> set fid"
proof (induction width fid arbitrary: str fid1 rule: scan_chars.induct)
  case (1 width)
  then show ?case by simp
next
  case (2 c fid)
  then show ?case by auto
next
  case (3 width c fid)
  show ?case
  proof (cases "isspace c")
    case True
    then show ?thesis using "3.prems" by auto
  next
    case False
    obtain s f where r: "scan_chars width fid = (s, f)" by (cases "scan_chars width fid") auto
    then show ?thesis using "3.IH" [OF False r] "3.prems" False by auto
  qed
qed

lemma fscanf_string_bytes:
  assumes "fscanf_string width fid = Some (str, fid1)"
  shows "set str \<subseteq> set fid \<and> set fid1 \<subseteq> set fid"
proof -
  from assms have "scan_chars width (dropWhile isspace fid) = (str, fid1)"
    by (auto simp: fscanf_string_def Let_def split: if_splits)
  then have "set str \<subseteq> set (dropWhile isspace fid) \<and> set fid1 \<subseteq> set (dropWhile isspace fid)"
    by (rule scan_chars_bytes)
  then show ?thesis using set_dropWhileD by fastforce
qed

lemma c_string_bytes: "CHR 0x00 \<notin> set (c_string buf) \<and> set (c_string buf) \<subseteq> set buf"
  unfolding c_string_def using set_takeWhileD by fastforce

lemma count_tokens_ok:
  "count_tokens sc ht fid = Inr ht' \<Longrightarrow> ht_ok sc B ht \<Longrightarrow> set fid \<subseteq> B \<Longrightarrow> ht_ok sc B ht'"
proof (induction sc ht fid rule: count_tokens.induct)
  case (1 sc ht fid)
  show ?case
  proof (cases "fscanf_string MAX_STRING_LENGTH fid")
    case None
    then show ?thesis using "1.prems" by (simp add: count_tokens.simps)
  next
    case (Some x)
    obtain str fid1 where x: "x = (str, fid1)" by (cases x) auto
    have b: "set str \<subseteq> set fid" "set fid1 \<subseteq> set fid"
      using fscanf_string_bytes [of MAX_STRING_LENGTH fid str fid1] Some x by auto
    have unk: "c_string str \<noteq> ''<unk>''"
      and rest: "count_tokens sc (hashinsert_count sc ht (c_string str)) fid1 = Inr ht'"
      using "1.prems"(1) Some x by (auto simp: count_tokens.simps split: if_splits)
    have "ht_ok sc B (hashinsert_count sc ht (c_string str))"
      using hashinsert_count_ok [OF "1.prems"(2), of "c_string str"] c_string_bytes [of str] b "1.prems"(3)
      by auto
    then show ?thesis
      using "1.IH" [OF Some x [symmetric] unk rest] b "1.prems"(3) by auto
  qed
qed

lemma inithashtable_ok: "ht_ok sc B inithashtable"
  by (simp add: ht_ok_def inithashtable_def)

lemma distinct_chains:
  assumes ok: "ht_ok sc B ht"
  shows "distinct hs \<Longrightarrow> distinct (map fst (concat (map ht hs)))"
proof (induction hs)
  case Nil
  then show ?case by simp
next
  case (Cons h hs)
  have "fst ` set (ht h) \<inter> fst ` set (concat (map ht hs)) = {}"
  proof (rule ccontr)
    assume "fst ` set (ht h) \<inter> fst ` set (concat (map ht hs)) \<noteq> {}"
    then obtain w where w: "w \<in> fst ` set (ht h)" "w \<in> fst ` set (concat (map ht hs))" by blast
    from w(1) obtain x where x: "x \<in> set (ht h)" "fst x = w" by auto
    from w(2) obtain y h' where y: "h' \<in> set hs" "y \<in> set (ht h')" "fst y = w" by auto
    have "bitwisehash sc w TSIZE SEED = h" using ok x unfolding ht_ok_def by blast
    moreover have "bitwisehash sc w TSIZE SEED = h'" using ok y unfolding ht_ok_def by blast
    ultimately have "h = h'" by simp
    then show False using Cons.prems y(1) by simp
  qed
  moreover have "distinct (map fst (ht h))" using ok by (simp add: ht_ok_def)
  ultimately show ?case using Cons by simp
qed

lemma migrate_chains: "migrate ht = concat (map ht (map of_nat [0 ..< unat TSIZE]))"
  by (simp add: migrate_def comp_def)

lemma unat_of_nat_32: "x < 2 ^ LENGTH(32) \<Longrightarrow> unat (of_nat x :: 32 word) = x"
  by (simp only: unat_of_nat mod_less)

lemma unat_TSIZE: "unat TSIZE = 1048576"
  by (simp add: TSIZE_def)

lemma distinct_buckets: "distinct (map (of_nat :: nat \<Rightarrow> 32 word) [0 ..< unat TSIZE])"
proof -
  have inj: "inj_on (of_nat :: nat \<Rightarrow> 32 word) (set [0 ..< unat TSIZE])"
  proof (rule inj_onI)
    fix x y :: nat
    assume x: "x \<in> set [0 ..< unat TSIZE]" and y: "y \<in> set [0 ..< unat TSIZE]"
      and e: "(of_nat x :: 32 word) = of_nat y"
    have "x < unat TSIZE" "y < unat TSIZE" using x y by (simp_all only: set_upt atLeastLessThan_iff)
    then have "x < 1048576" "y < 1048576" by (simp_all only: unat_TSIZE)
    then have a: "x < 2 ^ LENGTH(32)" "y < 2 ^ LENGTH(32)" by simp_all
    have "unat (of_nat x :: 32 word) = unat (of_nat y :: 32 word)" using e by (rule arg_cong)
    then show "x = y" by (simp only: unat_of_nat_32 [OF a(1)] unat_of_nat_32 [OF a(2)])
  qed
  show ?thesis unfolding distinct_map using inj distinct_upt by blast
qed

lemma migrate_ok:
  assumes "ht_ok sc B ht"
  shows "distinct (map fst (migrate ht))"
    and "\<forall>e \<in> set (migrate ht). CHR 0x00 \<notin> set (fst e) \<and> set (fst e) \<subseteq> B"
proof -
  show "distinct (map fst (migrate ht))"
    unfolding migrate_chains by (rule distinct_chains [OF assms distinct_buckets])
  show "\<forall>e \<in> set (migrate ht). CHR 0x00 \<notin> set (fst e) \<and> set (fst e) \<subseteq> B"
    using assms by (auto simp: migrate_def ht_ok_def)
qed

subsection \<open>The vocabulary written is sorted\<close>

lemma sorted_wrt_distinct_strict:
  "sorted_wrt P xs \<Longrightarrow> distinct (map f xs) \<Longrightarrow> sorted_wrt (\<lambda>a b. P a b \<and> f a \<noteq> f b) xs"
  by (induction xs) auto

lemma sorted_wrt_takeWhile: "sorted_wrt P xs \<Longrightarrow> sorted_wrt P (takeWhile Q xs)"
  by (induction xs) (auto dest: set_takeWhileD)

lemma write_vocab_form:
  "\<exists>xs. set xs \<subseteq> set vocab \<and> (distinct (map fst vocab) \<longrightarrow> distinct (map fst xs)) \<and>
     write_vocab sc max_vocab min_count vocab =
       takeWhile (\<lambda>v. \<not> snd v < min_count) (qsort (CompareVocabTie sc) xs)"
proof -
  define cut where "cut \<longleftrightarrow> max_vocab > 0 \<and> max_vocab < int (length vocab)"
  define v1 where "v1 = (if cut then qsort CompareVocab vocab else vocab)"
  define m where "m = nat (if cut then max_vocab else int (length vocab))"
  define xs where "xs = take m v1"
  have ms: "mset v1 = mset vocab" by (simp add: v1_def)
  then have st: "set v1 = set vocab" by (metis set_mset_mset)
  have "set xs \<subseteq> set v1" unfolding xs_def by (rule set_take_subset)
  then have 1: "set xs \<subseteq> set vocab" using st by simp
  have 2: "distinct (map fst xs)" if d: "distinct (map fst vocab)"
  proof -
    have "mset (map fst v1) = mset (map fst vocab)" using ms by (metis mset_map)
    then have "distinct (map fst v1)" using d by (metis mset_eq_imp_distinct_iff)
    then have "distinct (take m (map fst v1))" by (rule distinct_take)
    then show ?thesis by (simp add: xs_def take_map)
  qed
  have tk: "take m (qsort (CompareVocabTie sc) xs @ drop m v1) = qsort (CompareVocabTie sc) xs"
  proof (cases "m \<le> length v1")
    case True
    then have "length (qsort (CompareVocabTie sc) xs) = m" by (simp add: xs_def)
    then show ?thesis by simp
  next
    case False
    then have "drop m v1 = []" by simp
    moreover have "length (qsort (CompareVocabTie sc) xs) \<le> m" by (simp add: xs_def)
    ultimately show ?thesis by simp
  qed
  have 3: "write_vocab sc max_vocab min_count vocab =
       takeWhile (\<lambda>v. \<not> snd v < min_count) (qsort (CompareVocabTie sc) xs)"
  proof -
    have "write_vocab sc max_vocab min_count vocab =
        takeWhile (\<lambda>v. \<not> snd v < min_count) (take m (qsort (CompareVocabTie sc) xs @ drop m v1))"
      by (simp add: write_vocab_def Let_def cut_def v1_def m_def xs_def del: take_append)
    then show ?thesis by (simp only: tk)
  qed
  from 1 2 3 show ?thesis by blast
qed

lemma set_write_vocab: "set (write_vocab sc max_vocab min_count vocab) \<subseteq> set vocab"
proof -
  obtain xs where xs: "set xs \<subseteq> set vocab"
    "write_vocab sc max_vocab min_count vocab =
       takeWhile (\<lambda>v. \<not> snd v < min_count) (qsort (CompareVocabTie sc) xs)"
    using write_vocab_form [of vocab sc max_vocab min_count] by blast
  have "set (takeWhile (\<lambda>v. \<not> snd v < min_count) (qsort (CompareVocabTie sc) xs))
      \<subseteq> set (qsort (CompareVocabTie sc) xs)" by (auto dest: set_takeWhileD)
  then show ?thesis using xs by simp
qed

lemma write_vocab_sorted:
  assumes d: "distinct (map fst vocab)" and n: "\<forall>e \<in> set vocab. CHR 0x00 \<notin> set (fst e)"
  shows "sorted_wrt (\<lambda>a b. snd b < snd a \<or> (snd a = snd b \<and> scmp sc (fst a) (fst b) < 0))
           (write_vocab sc max_vocab min_count vocab)"
proof -
  obtain xs where xs: "set xs \<subseteq> set vocab" "distinct (map fst xs)"
    "write_vocab sc max_vocab min_count vocab =
       takeWhile (\<lambda>v. \<not> snd v < min_count) (qsort (CompareVocabTie sc) xs)"
    using write_vocab_form [of vocab sc max_vocab min_count] d by blast
  define A :: "VOCAB set" where "A = {e. CHR 0x00 \<notin> set (fst e)}"
  define ys where "ys = qsort (CompareVocabTie sc) xs"
  have sub: "set xs \<subseteq> A" using xs(1) n by (auto simp: A_def)
  have s1: "sorted_wrt (\<lambda>a b. CompareVocabTie sc a b \<le> 0) ys"
    unfolding ys_def
  proof (rule sorted_qsort [of A])
    show "set xs \<subseteq> A" by (rule sub)
    show "CompareVocabTie sc a b \<le> 0 \<or> CompareVocabTie sc b a \<le> 0" for a b
      by (rule CompareVocabTie_total)
    show "CompareVocabTie sc a c \<le> 0"
      if "a \<in> A" "b \<in> A" "c \<in> A" "CompareVocabTie sc a b \<le> 0" "CompareVocabTie sc b c \<le> 0"
      for a b c
      using that CompareVocabTie_trans [of a b c sc] by (simp add: A_def)
  qed
  have "mset (map fst ys) = mset (map fst xs)" unfolding ys_def by (metis mset_map mset_qsort)
  then have dy: "distinct (map fst ys)" using xs(2) by (metis mset_eq_imp_distinct_iff)
  have sy: "set ys \<subseteq> A" using sub by (simp add: ys_def)
  have s2: "sorted_wrt (\<lambda>a b. CompareVocabTie sc a b \<le> 0 \<and> fst a \<noteq> fst b) ys"
    by (rule sorted_wrt_distinct_strict [OF s1 dy])
  have s3: "sorted_wrt (\<lambda>a b. snd b < snd a \<or> (snd a = snd b \<and> scmp sc (fst a) (fst b) < 0)) ys"
  proof (rule sorted_wrt_mono_rel [OF _ s2])
    fix a b
    assume a: "a \<in> set ys" and b: "b \<in> set ys"
      and c: "CompareVocabTie sc a b \<le> 0 \<and> fst a \<noteq> fst b"
    have "CHR 0x00 \<notin> set (fst a)" "CHR 0x00 \<notin> set (fst b)" using a b sy by (auto simp: A_def)
    then have "scmp sc (fst a) (fst b) \<noteq> 0" using c by (simp add: scmp_zero)
    then show "snd b < snd a \<or> (snd a = snd b \<and> scmp sc (fst a) (fst b) < 0)"
      using c by (auto simp: CompareVocabTie_le)
  qed
  show ?thesis unfolding xs(3) ys_def [symmetric] by (rule sorted_wrt_takeWhile [OF s3])
qed

lemma get_counts_vocab:
  assumes "get_counts sc max_vocab min_count stdin = Inr out"
  shows "\<exists>vocab. out = write_vocab sc max_vocab min_count vocab \<and> distinct (map fst vocab) \<and>
    (\<forall>e \<in> set vocab. CHR 0x00 \<notin> set (fst e) \<and> set (fst e) \<subseteq> set stdin)"
proof -
  from assms obtain ht where ht: "count_tokens sc inithashtable stdin = Inr ht"
    and out: "out = write_vocab sc max_vocab min_count (migrate ht)"
    by (auto simp: get_counts_def split: sum.splits)
  have ok: "ht_ok sc (set stdin) ht"
    by (rule count_tokens_ok [OF ht inithashtable_ok]) simp
  show ?thesis using out migrate_ok [OF ok] by blast
qed

lemma get_counts_sorted:
  assumes "get_counts sc max_vocab min_count stdin = Inr out"
  shows "sorted_wrt (\<lambda>a b. snd b < snd a \<or> (snd a = snd b \<and> scmp sc (fst a) (fst b) < 0)) out"
  using get_counts_vocab [OF assms] write_vocab_sorted by blast

lemma get_counts_bytes:
  assumes "get_counts sc max_vocab min_count stdin = Inr out" and e: "e \<in> set out"
  shows "CHR 0x00 \<notin> set (fst e) \<and> set (fst e) \<subseteq> set stdin"
  using get_counts_vocab [OF assms(1)] e set_write_vocab by blast

lemma get_counts_sorted_bytes:
  assumes g: "get_counts sc max_vocab min_count stdin = Inr out"
    and a: "\<not> sc \<or> (\<forall>c \<in> set stdin. (of_char c :: nat) < 128)"
  shows "sorted_wrt (\<lambda>a b. snd b < snd a \<or> (snd a = snd b \<and> bytes_less (fst a) (fst b))) out"
proof (rule sorted_wrt_mono_rel [OF _ get_counts_sorted [OF g]])
  fix x y
  assume x: "x \<in> set out" and y: "y \<in> set out"
    and s: "snd y < snd x \<or> (snd x = snd y \<and> scmp sc (fst x) (fst y) < 0)"
  have bx: "CHR 0x00 \<notin> set (fst x)" "set (fst x) \<subseteq> set stdin"
    using get_counts_bytes [OF g x] by simp_all
  have by': "CHR 0x00 \<notin> set (fst y)" "set (fst y) \<subseteq> set stdin"
    using get_counts_bytes [OF g y] by simp_all
  have "\<not> sc \<or> (\<forall>c \<in> set (fst x) \<union> set (fst y). (of_char c :: nat) < 128)"
    using a bx(2) by'(2) by blast
  then have "scmp sc (fst x) (fst y) < 0 \<longleftrightarrow> bytes_less (fst x) (fst y)"
    by (rule scmp_bytes_less [OF bx(1) by'(1)])
  then show "snd y < snd x \<or> (snd x = snd y \<and> bytes_less (fst x) (fst y))" using s by simp
qed

subsection \<open>The buckets of a small table\<close>

lemma concat_map_upt_two:
  assumes "k1 < k2" "k2 < n" and z: "\<And>i. i < n \<Longrightarrow> i \<noteq> k1 \<Longrightarrow> i \<noteq> k2 \<Longrightarrow> f i = []"
  shows "concat (map f [0 ..< n]) = f k1 @ f k2"
proof -
  have e: "concat (map f [a ..< b]) = []" if "\<And>i. a \<le> i \<Longrightarrow> i < b \<Longrightarrow> f i = []" for a b
    using that by simp
  have "[0 ..< n] = [0 ..< k1] @ [k1 ..< n]"
    using assms(1,2) upt_add_eq_append [of 0 k1 "n - k1"] by simp
  also have "[k1 ..< n] = k1 # [Suc k1 ..< n]" using assms(1,2) by (simp add: upt_conv_Cons)
  also have "[Suc k1 ..< n] = [Suc k1 ..< k2] @ [k2 ..< n]"
    using assms(1,2) upt_add_eq_append [of "Suc k1" k2 "n - k2"] by simp
  also have "[k2 ..< n] = k2 # [Suc k2 ..< n]" using assms(2) by (simp add: upt_conv_Cons)
  finally have sp: "[0 ..< n] = [0 ..< k1] @ k1 # [Suc k1 ..< k2] @ k2 # [Suc k2 ..< n]" .
  have c1: "concat (map f [0 ..< k1]) = []" using assms(1,2) by (intro e z) auto
  have c2: "concat (map f [Suc k1 ..< k2]) = []" using assms(1,2) by (intro e z) auto
  have c3: "concat (map f [Suc k2 ..< n]) = []" using assms(1,2) by (intro e z) auto
  show ?thesis unfolding sp by (simp add: c1 c2 c3)
qed

lemma migrate_two:
  assumes "h1 < h2" "h2 < TSIZE" and z: "\<And>h. h \<noteq> h1 \<Longrightarrow> h \<noteq> h2 \<Longrightarrow> ht h = []"
  shows "migrate ht = ht h1 @ ht h2"
proof -
  have k: "unat h1 < unat h2" "unat h2 < unat TSIZE"
    using assms(1,2) by (simp_all only: word_less_nat_alt)
  have "concat (map (\<lambda>i. ht (of_nat i)) [0 ..< unat TSIZE]) =
      ht (of_nat (unat h1)) @ ht (of_nat (unat h2))"
  proof (rule concat_map_upt_two [OF k])
    fix i
    assume i: "i < unat TSIZE" "i \<noteq> unat h1" "i \<noteq> unat h2"
    from i(1) have "i < 1048576" by (simp only: unat_TSIZE)
    then have "i < 2 ^ LENGTH(32)" by simp
    then have u: "unat (of_nat i :: 32 word) = i" by (rule unat_of_nat_32)
    have "(of_nat i :: 32 word) \<noteq> h1" "(of_nat i :: 32 word) \<noteq> h2" using u i(2,3) by auto
    then show "ht (of_nat i) = []" by (rule z)
  qed
  moreover have "(of_nat (unat h1) :: 32 word) = h1" "(of_nat (unat h2) :: 32 word) = h2"
    by simp_all
  ultimately show ?thesis by (simp only: migrate_def)
qed

subsection \<open>A small corpus for the vocabulary builder\<close>

lemma hash_a: "bitwisehash sc ''a'' TSIZE SEED = 771546"
  by (cases sc) (simp; code_simp)+

lemma hash_e_acute: "bitwisehash True [CHR 0xC3, CHR 0xA9] TSIZE SEED = 543972"
  by code_simp

lemma fscanf_a_e_acute:
  "fscanf_string MAX_STRING_LENGTH [CHR ''a'', CHR '' '', CHR 0xC3, CHR 0xA9, CHR 0x0A] =
     Some (''a'', [CHR '' '', CHR 0xC3, CHR 0xA9, CHR 0x0A])"
  "fscanf_string MAX_STRING_LENGTH [CHR '' '', CHR 0xC3, CHR 0xA9, CHR 0x0A] =
     Some ([CHR 0xC3, CHR 0xA9], [CHR 0x0A])"
  "fscanf_string MAX_STRING_LENGTH [CHR 0x0A] = None"
  by (simp_all add: fscanf_string_def Let_def isspace_def MAX_STRING_LENGTH_def eval_nat_numeral)

lemma count_tokens_a_e_acute:
  "count_tokens True inithashtable [CHR ''a'', CHR '' '', CHR 0xC3, CHR 0xA9, CHR 0x0A] =
     Inr (inithashtable(771546 := [(''a'', 1)], 543972 := [([CHR 0xC3, CHR 0xA9], 1)]))"
  by (simp add: count_tokens.simps fscanf_a_e_acute c_string_def
      hashinsert_count_def hash_a hash_e_acute inithashtable_def)

lemma migrate_a_e_acute:
  "migrate (inithashtable(771546 := [(''a'', 1)], 543972 := [([CHR 0xC3, CHR 0xA9], 1)])) =
     [([CHR 0xC3, CHR 0xA9], 1), (''a'', 1)]"
proof -
  have "migrate (inithashtable(771546 := [(''a'', 1)], 543972 := [([CHR 0xC3, CHR 0xA9], 1)])) =
      (inithashtable(771546 := [(''a'', 1)], 543972 := [([CHR 0xC3, CHR 0xA9], 1)])) 543972 @
      (inithashtable(771546 := [(''a'', 1)], 543972 := [([CHR 0xC3, CHR 0xA9], 1)])) 771546"
    by (rule migrate_two) (simp_all add: TSIZE_def inithashtable_def)
  then show ?thesis by simp
qed

lemma write_vocab_a_e_acute:
  "write_vocab True 0 1 [([CHR 0xC3, CHR 0xA9], 1), (''a'', 1)] =
     [([CHR 0xC3, CHR 0xA9], 1), (''a'', 1)]"
  by code_simp

text \<open>The options are the defaults, \<open>max_vocab = 0\<close> and \<open>min_count = 1\<close>.\<close>

lemma get_counts_a_e_acute:
  "get_counts True 0 1 [CHR ''a'', CHR '' '', CHR 0xC3, CHR 0xA9, CHR 0x0A] =
     Inr [([CHR 0xC3, CHR 0xA9], 1), (''a'', 1)]"
  by (simp add: get_counts_def count_tokens_a_e_acute migrate_a_e_acute write_vocab_a_e_acute)

subsection \<open>Claim C10\<close>

text \<open>
  C10.  If every run file holds at least one record and is sorted by (word1, word2) with
  no key twice, its records holding ranks, then \<^verbatim>\<open>merge_files\<close> writes the keys in
  strictly increasing order (so one record for each key), the keys written are the keys of
  the runs, and the value of each record is the sum of the values its key has in all runs:
  the sum in \<^verbatim>\<open>double\<close> arithmetic, the values being added one after the other in the
  order in which the queue delivers them.
\<close>

theorem merge_files_sums_each_key:
  assumes "runs \<noteq> []"
    and "\<forall>f \<in> set runs. f \<noteq> [] \<and> sorted_wrt (\<lambda>a b. key a < key b) f \<and> (\<forall>r \<in> set f. ranks r)"
  shows "sorted_wrt (\<lambda>a b. key a < key b) (merge_files (length runs) runs mem new0) \<and>
    key ` set (merge_files (length runs) runs mem new0) = (\<Union>f \<in> set runs. key ` set f) \<and>
    (\<forall>r \<in> set (merge_files (length runs) runs mem new0).
       \<exists>vs. mset vs = mset (map val (filter (\<lambda>x. key x = key r) (concat runs))) \<and>
            val r = double_sum vs)"
proof -
  let ?out = "merge_files (length runs) runs mem new0"
  have ok: "\<forall>f \<in> set runs. f \<noteq> [] \<and> sorted (map key f) \<and> (\<forall>r \<in> set f. ranks r)"
    using assms(2) strict_keys_sorted by blast
  have s: "summed ?out (sum_list (map mset runs))"
    by (rule merge_files_props [OF assms(1) ok])
  have m: "sum_list (map mset runs) = mset (concat runs)" by (simp add: mset_concat)
  show ?thesis
  proof (intro conjI ballI)
    show "sorted_wrt (\<lambda>a b. key a < key b) ?out"
      using s by (simp add: summed_def sorted_wrt_map)
    show "key ` set ?out = (\<Union>f \<in> set runs. key ` set f)"
      using s unfolding summed_def set_mset_runs by auto
  next
    fix r assume "r \<in> set ?out"
    then obtain vs where
      "mset vs = image_mset val (filter_mset (\<lambda>x. key x = key r) (sum_list (map mset runs)))"
      "val r = double_sum vs"
      using s unfolding summed_def by blast
    then show "\<exists>vs. mset vs = mset (map val (filter (\<lambda>x. key x = key r) (concat runs))) \<and>
        val r = double_sum vs"
      unfolding m by auto
  qed
qed

theorem merge_files_sums_each_key_witness:
  "sorted_wrt (\<lambda>a b. key a < key b)
     (merge_files 2 [[\<lparr>word1 = 1, word2 = 1, val = Finite 1\<rparr>, \<lparr>word1 = 1, word2 = 2, val = Finite 3\<rparr>],
                     [\<lparr>word1 = 1, word2 = 2, val = Finite (1 / 2)\<rparr>, \<lparr>word1 = 2, word2 = 1, val = Finite 5\<rparr>]]
        (\<lambda>i. \<lparr>word1 = 0, word2 = 0, val = Finite 0, id' = 0\<rparr>)
        \<lparr>word1 = 0, word2 = 0, val = Finite 0, id' = 0\<rparr>) \<and>
   key ` set
     (merge_files 2 [[\<lparr>word1 = 1, word2 = 1, val = Finite 1\<rparr>, \<lparr>word1 = 1, word2 = 2, val = Finite 3\<rparr>],
                     [\<lparr>word1 = 1, word2 = 2, val = Finite (1 / 2)\<rparr>, \<lparr>word1 = 2, word2 = 1, val = Finite 5\<rparr>]]
        (\<lambda>i. \<lparr>word1 = 0, word2 = 0, val = Finite 0, id' = 0\<rparr>)
        \<lparr>word1 = 0, word2 = 0, val = Finite 0, id' = 0\<rparr>)
     = {(1, 1), (1, 2), (2, 1)}"
proof -
  let ?runs = "[[\<lparr>word1 = 1, word2 = 1, val = Finite 1\<rparr>, \<lparr>word1 = 1, word2 = 2, val = Finite 3\<rparr>],
                [\<lparr>word1 = 1, word2 = 2, val = Finite (1 / 2)\<rparr>, \<lparr>word1 = 2, word2 = 1, val = Finite 5\<rparr>]]"
  have a: "?runs \<noteq> []" by simp
  have b: "\<forall>f \<in> set ?runs. f \<noteq> [] \<and> sorted_wrt (\<lambda>a b. key a < key b) f \<and> (\<forall>r \<in> set f. ranks r)"
    by (simp add: key_def ranks_def is_rank_def)
  have l: "length ?runs = 2" by simp
  show ?thesis
    using merge_files_sums_each_key [OF a b, of "\<lambda>i. \<lparr>word1 = 0, word2 = 0, val = Finite 0, id' = 0\<rparr>"
        "\<lparr>word1 = 0, word2 = 0, val = Finite 0, id' = 0\<rparr>"]
    unfolding l by (auto simp: key_def)
qed

subsection \<open>Scenario A on the code\<close>

lemma compare_crecid_same [simp]: "compare_crecid a a = 0"
  by (simp add: compare_crecid_def int32_def)

lemma double_add_1_1: "double_add (Finite 1) (Finite 1) = Finite 2"
  by code_simp

text \<open>
  All pairs of the scenario are dense, so the run \<^verbatim>\<open>overflow_0000.bin\<close> holds the seven
  records the specification lists and the run \<^verbatim>\<open>overflow_0001.bin\<close> is empty.
\<close>

lemma scenario_A_runs:
  "get_cooccurrence_runs scenario_A_config [''a'', ''b'', ''c''] ''a b a c\<newline>b a\<newline>'' =
     Inr [scenario_A_dense, []]"
  unfolding scenario_A_config_def scenario_A_dense_def by code_simp

text \<open>
  The first loop of \<^verbatim>\<open>merge_files\<close> reads the empty run into \<^verbatim>\<open>new\<close>, which still
  holds the first record of run 0, and queues it a second time.
\<close>

lemma scenario_A_merge:
  "merge_files 2 [scenario_A_dense, []] mem new0 =
     [\<lparr>word1 = 1, word2 = 1, val = Finite 2\<rparr>, \<lparr>word1 = 1, word2 = 2, val = Finite 3\<rparr>,
      \<lparr>word1 = 1, word2 = 3, val = Finite 1\<rparr>, \<lparr>word1 = 2, word2 = 1, val = Finite 3\<rparr>,
      \<lparr>word1 = 2, word2 = 3, val = Finite (1 / 2)\<rparr>, \<lparr>word1 = 3, word2 = 1, val = Finite 1\<rparr>,
      \<lparr>word1 = 3, word2 = 2, val = Finite (1 / 2)\<rparr>]"
  by (simp add: scenario_A_dense_def merge_files_def upt_rec [of 0] upt_rec [of 1] prime_loop.simps merge_loop.simps insert_loop.simps
      delete_loop.simps fread_crec_def insert_pq_def delete_pq_def swap_entry_def
      compare_crecid_def int32_def pop_refill_def merge_write_def crec_of_def Let_def
      double_add_1_1)

lemma scenario_A_output:
  "get_cooccurrence scenario_A_config [''a'', ''b'', ''c''] ''a b a c\<newline>b a\<newline>'' mem new0 =
     Inr [\<lparr>word1 = 1, word2 = 1, val = Finite 2\<rparr>, \<lparr>word1 = 1, word2 = 2, val = Finite 3\<rparr>,
          \<lparr>word1 = 1, word2 = 3, val = Finite 1\<rparr>, \<lparr>word1 = 2, word2 = 1, val = Finite 3\<rparr>,
          \<lparr>word1 = 2, word2 = 3, val = Finite (1 / 2)\<rparr>, \<lparr>word1 = 3, word2 = 1, val = Finite 1\<rparr>,
          \<lparr>word1 = 3, word2 = 2, val = Finite (1 / 2)\<rparr>]"
proof -
  have "length [scenario_A_dense, []] = 2" by simp
  then show ?thesis
    by (simp only: get_cooccurrence_def scenario_A_runs sum.case scenario_A_merge)
qed

subsection \<open>Claim C3\<close>

text \<open>
  C3 says that cooccur with \<open>window_size = 2\<close>, \<open>symmetric = 1\<close> on the corpus
  \<^verbatim>\<open>a b a c / b a\<close> with ranks a=1, b=2, c=3 writes the seven records (1,1,1.0), (1,2,3.0),
  (1,3,1.0), (2,1,3.0), (2,3,0.5), (3,1,1.0), (3,2,0.5).  With the array sizes the program
  computes by default the code writes (1,1,2.0) as the first record, whatever the
  uninitialised queue and \<^verbatim>\<open>new\<close> hold: the other six are as claimed.
\<close>

theorem scenario_A_first_record_doubled:
  "get_cooccurrence scenario_A_config [''a'', ''b'', ''c''] ''a b a c\<newline>b a\<newline>'' mem new0 =
     Inr [\<lparr>word1 = 1, word2 = 1, val = Finite 2\<rparr>, \<lparr>word1 = 1, word2 = 2, val = Finite 3\<rparr>,
          \<lparr>word1 = 1, word2 = 3, val = Finite 1\<rparr>, \<lparr>word1 = 2, word2 = 1, val = Finite 3\<rparr>,
          \<lparr>word1 = 2, word2 = 3, val = Finite (1 / 2)\<rparr>, \<lparr>word1 = 3, word2 = 1, val = Finite 1\<rparr>,
          \<lparr>word1 = 3, word2 = 2, val = Finite (1 / 2)\<rparr>]"
  by (rule scenario_A_output)

subsection \<open>Claim C1\<close>

text \<open>
  C1 says that the values of the records written sum to the total weight of all pairs of
  in-vocabulary tokens within the window on a line, doubled in symmetric mode.  In
  scenario A (lines of ranks 1 2 1 3 and 2 1) the expected weight is 10 and the values
  of the records the code writes, all of them finite, sum to 11.
\<close>

theorem scenario_A_weight_not_conserved:
  "spec_total_weight 2 1 [[1, 2, 1, 3], [2, 1 :: int]] = 10 \<and>
   (\<exists>out vs. get_cooccurrence scenario_A_config [''a'', ''b'', ''c''] ''a b a c\<newline>b a\<newline>'' mem new0
            = Inr out \<and> map val out = map Finite vs \<and> sum_list vs = 11)"
proof
  show "spec_total_weight 2 1 [[1, 2, 1, 3], [2, 1 :: int]] = 10"
    by code_simp
  let ?out = "[\<lparr>word1 = 1, word2 = 1, val = Finite 2\<rparr>, \<lparr>word1 = 1, word2 = 2, val = Finite 3\<rparr>,
          \<lparr>word1 = 1, word2 = 3, val = Finite 1\<rparr>, \<lparr>word1 = 2, word2 = 1, val = Finite 3\<rparr>,
          \<lparr>word1 = 2, word2 = 3, val = Finite (1 / 2)\<rparr>, \<lparr>word1 = 3, word2 = 1, val = Finite 1\<rparr>,
          \<lparr>word1 = 3, word2 = 2, val = Finite (1 / 2)\<rparr>]"
  have "get_cooccurrence scenario_A_config [''a'', ''b'', ''c''] ''a b a c\<newline>b a\<newline>'' mem new0
      = Inr ?out" by (rule scenario_A_output)
  moreover have "map val ?out = map Finite [2, 3, 1, 3, 1 / 2, 1, 1 / 2]" by simp
  moreover have "sum_list [2, 3, 1, 3, 1 / 2, 1, 1 / 2 :: real] = 11" by simp
  ultimately show "\<exists>out vs. get_cooccurrence scenario_A_config [''a'', ''b'', ''c''] ''a b a c\<newline>b a\<newline>'' mem new0
            = Inr out \<and> map val out = map Finite vs \<and> sum_list vs = 11"
    by blast
qed

subsection \<open>Claim C4\<close>

text \<open>
  C4 says that no store into the overflow buffer \<^verbatim>\<open>cr\<close> leaves its allocation of
  \<open>overflow_length + 1\<close> records.  With \<open>window_size = 3\<close>, \<open>symmetric = 1\<close>,
  \<open>overflow_length = 4\<close> and \<open>max_product = 1\<close> the fourth token of the line
  \<^verbatim>\<open>a a a a\<close> stores six records after a flush; the last store is at index 5, behind the
  five records allocated.
\<close>

theorem overflow_buffer_overrun:
  "get_cooccurrence_runs
     \<lparr>window_size = 3, symmetric = 1, max_product = 1, overflow_length = 4, signed_char = True\<rparr>
     [''a''] ''a a a a\<newline>'' = Inl (CrOverrun 5)"
  by code_simp

subsection \<open>Claim C6\<close>

text \<open>
  C6 says that the output of the shuffler is a permutation of its input.  With
  \<open>array_size = 1\<close> an input of one record is written to a first temporary file, a second,
  empty one is opened at the end of the input, and \<^verbatim>\<open>shuffle_merge\<close> reads
  \<open>array_size / num = 1 / 2 = 0\<close> records of each file in a round: nothing is written.
\<close>

theorem shuffle_drops_records: "shuffle_by_chunks 1 [r] rng = Some []"
  by (simp add: shuffle_by_chunks_def shuffle_def shuffle_loop.simps shuffle_merge_def
      merge_rounds.simps signed_divide_int_def)

subsection \<open>Claim C7\<close>

text \<open>
  C7 says that every buffer of phase 1 is permuted by a Fisher-Yates shuffle over its full
  length \<open>n\<close>: each index from \<open>n - 1\<close> down to 1 is swapped with a random index.  The
  code calls \<^verbatim>\<open>shuffle(array, i-2)\<close>, which leaves the last two records where they are
  and starts at index \<open>n - 3\<close>: a buffer of two records is written as it was read, and no
  random number is drawn (the tape \<open>rng\<close> is returned untouched).  The buffer size is the
  one the program computes by default.
\<close>

theorem chunk_tail_not_shuffled:
  "chunk_loop 127506841 [] [] rng [r1, r2] = Some ([[r1, r2]], rng)"
  by (simp add: shuffle_def shuffle_loop.simps)

subsection \<open>Rounding in the merge\<close>

text \<open>
  Three run files that hold the same key with the value \<^verbatim>\<open>1.0/3\<close>, the double nearest to
  1/3: the record written has the value 1, the rounded sum, not the exact sum of the three
  values.
\<close>

lemma inverse_distance_3: "inverse_distance 3 = Finite (6004799503160661 / 18014398509481984)"
  by code_simp

lemma double_add_thirds:
  "double_add (Finite (6004799503160661 / 18014398509481984))
     (Finite (6004799503160661 / 18014398509481984)) = Finite (6004799503160661 / 9007199254740992)"
  "double_add (Finite (6004799503160661 / 9007199254740992))
     (Finite (6004799503160661 / 18014398509481984)) = Finite 1"
  by code_simp+

lemma merge_files_thirds:
  "merge_files 3
     [[\<lparr>word1 = 1, word2 = 1, val = Finite (6004799503160661 / 18014398509481984)\<rparr>],
      [\<lparr>word1 = 1, word2 = 1, val = Finite (6004799503160661 / 18014398509481984)\<rparr>],
      [\<lparr>word1 = 1, word2 = 1, val = Finite (6004799503160661 / 18014398509481984)\<rparr>]] mem new0 =
     [\<lparr>word1 = 1, word2 = 1, val = Finite 1\<rparr>]"
  by (simp add: merge_files_def upt_rec [of 0] upt_rec [of 1] upt_rec [of 2] prime_loop.simps
      merge_loop.simps insert_loop.simps delete_loop.simps fread_crec_def insert_pq_def
      delete_pq_def swap_entry_def compare_crecid_def int32_def pop_refill_def merge_write_def
      crec_of_def Let_def double_add_thirds)

subsection \<open>Claim C2\<close>




subsection \<open>Claim C9\<close>

text \<open>
  C9 says that both programs read a token of more than 1000 bytes as its first 1000 bytes
  and drop the rest.  \<^verbatim>\<open>get_word\<close> of cooccur.c keeps 998 bytes: a token of 999 bytes is
  cut already, and of a token of 1001 bytes 998 are kept, not 1000.  \<^verbatim>\<open>fscanf\<close> with
  \<^verbatim>\<open>%1000s\<close> in vocab\_count.c returns the first 1000 bytes of the token of 1001 bytes and
  leaves its last byte in the stream, where the next call reads it as a token of its own.
\<close>

theorem get_word_keeps_998_bytes:
  "get_word (replicate 999 (CHR ''a'') @ [CHR 0x0A], False) =
      (0, replicate 998 (CHR ''a''), [CHR 0x0A], False) \<and>
   get_word (replicate 1001 (CHR ''a'') @ [CHR 0x0A], False) =
      (0, replicate 998 (CHR ''a''), [CHR 0x0A], False) \<and>
   replicate 998 (CHR ''a'') \<noteq> take 1000 (replicate 1001 (CHR ''a'')) \<and>
   fscanf_string MAX_STRING_LENGTH (replicate 1001 (CHR ''a'') @ [CHR 0x0A]) =
      Some (replicate 1000 (CHR ''a''), [CHR ''a'', CHR 0x0A]) \<and>
   fscanf_string MAX_STRING_LENGTH [CHR ''a'', CHR 0x0A] = Some ([CHR ''a''], [CHR 0x0A])"
proof -
  have a: "replicate n (CHR ''a'') \<noteq> []" if "0 < n" for n using that by simp
  have b: "\<forall>ch \<in> set (replicate n (CHR ''a'')). \<not> isspace ch" for n by (simp add: isspace_def)
  have c: "CHR 0x0A = CHR '' '' \<or> CHR 0x0A = CHR 0x09 \<or> CHR 0x0A = CHR 0x0A" by simp
  have sp: "isspace (CHR 0x0A)" by (simp add: isspace_def)
  have d: "drop 1000 (replicate 1001 (CHR ''a'')) = [CHR ''a'']"
    by (simp add: drop_replicate)
  have 0: "get_word (replicate 999 (CHR ''a'') @ [CHR 0x0A], False) =
      (0, replicate 998 (CHR ''a''), [CHR 0x0A], False)"
    using get_word_token [OF a b c, of 999 "[]"] by simp
  have 1: "get_word (replicate 1001 (CHR ''a'') @ [CHR 0x0A], False) =
      (0, replicate 998 (CHR ''a''), [CHR 0x0A], False)"
    using get_word_token [OF a b c, of 1001 "[]"] by simp
  have 2: "replicate 998 (CHR ''a'') \<noteq> take 1000 (replicate 1001 (CHR ''a''))"
  proof
    assume "replicate 998 (CHR ''a'') = take 1000 (replicate 1001 (CHR ''a''))"
    then have "length (replicate 998 (CHR ''a'')) = length (take 1000 (replicate 1001 (CHR ''a'')))"
      by (rule arg_cong)
    then show False by simp
  qed
  have 3: "fscanf_string MAX_STRING_LENGTH (replicate 1001 (CHR ''a'') @ [CHR 0x0A]) =
      Some (replicate 1000 (CHR ''a''), [CHR ''a'', CHR 0x0A])"
    using fscanf_string_token [OF a b sp, of 1001 1000 "[]"] d by (simp add: MAX_STRING_LENGTH_def)
  have 4: "fscanf_string MAX_STRING_LENGTH [CHR ''a'', CHR 0x0A] = Some ([CHR ''a''], [CHR 0x0A])"
    by (simp add: fscanf_string_def MAX_STRING_LENGTH_def isspace_def Let_def eval_nat_numeral)
  show ?thesis using 0 1 2 3 4 by simp
qed

subsection \<open>Claim C8\<close>

text \<open>
  C8 says that lines of one count are in ascending lexicographic order of their bytes.
  \<^verbatim>\<open>scmp\<close> subtracts two plain \<^verbatim>\<open>char\<close>; where plain \<^verbatim>\<open>char\<close> is signed (x86) a byte
  above 127 is a negative number.  For the corpus of the two words \<^verbatim>\<open>a\<close> and e with acute
  accent in UTF-8 (the bytes C3 A9), both of count 1, and the default options, the word of
  the bytes C3 A9 is written first, and its first byte 195 is above the byte 97 of \<^verbatim>\<open>a\<close>.
\<close>

theorem vocab_signed_char_order:
  "get_counts True 0 1 [CHR ''a'', CHR '' '', CHR 0xC3, CHR 0xA9, CHR 0x0A] =
     Inr [([CHR 0xC3, CHR 0xA9], 1), (''a'', 1)] \<and>
   \<not> sorted_wrt (\<lambda>a b. snd b < snd a \<or> (snd a = snd b \<and> bytes_less (fst a) (fst b)))
     [([CHR 0xC3, CHR 0xA9], 1 :: int), (''a'', 1)]"
  by (simp add: get_counts_a_e_acute)

end
